theory Spec2Isabelle
  imports Main "HOL-Library.AList"
begin

section \<open>The SFTP channel pools of sshfs\<close>

text \<open>
  The development follows \<^verbatim>\<open>sshfs.py\<close>: the base class \<^verbatim>\<open>_SFTPChannelPool\<close>, its two
  subclasses \<^verbatim>\<open>SFTPHardChannelPool\<close> and \<^verbatim>\<open>SFTPSoftChannelPool\<close>, and the constructor of
  \<^verbatim>\<open>SSHFile\<close>. A channel is an opaque object of asyncssh; only its identity matters
  here, so a channel is a number. Python integers are \<open>int\<close>. Exceptions are values of
  the type \<open>error\<close>, and a function that can raise returns \<open>error + 'a\<close> together with
  the state it leaves behind.
\<close>

type_synonym channel = nat

datatype error =
    ChannelOpenError            \<comment> \<open>asyncssh.misc.ChannelOpenError\<close>
  | OtherError string           \<comment> \<open>any other exception, named by its type\<close>
  | TimeoutError                \<comment> \<open>raised by asyncio.wait_for\<close>
  | CantCreateConnections       \<comment> \<open>ValueError: Can't create any SFTP connections!\<close>
  | CantBeClosed                \<comment> \<open>RuntimeError: ... can't be closed while there are active channels\<close>
  | UnsupportedMode string      \<comment> \<open>ValueError: Unsupported file open mode: ...\<close>
  | NotImplementedError         \<comment> \<open>raised by fsspec: File mode not supported\<close>

text \<open>What \<^verbatim>\<open>client.start_sftp_client()\<close> does when it is awaited: the connection is
  the environment of the pool, so its answer is a parameter of the model.\<close>

datatype open_result = Opened channel | Raised error

text \<open>How the body of an \<^verbatim>\<open>async with pool.get()\<close> block ends.\<close>

datatype exit_kind = Normal | Raising

subsection \<open>The base class\<close>

record pool =
  max_channels :: "int option"
  active_channels :: int
  timeout :: "int option"
  unsafe_terminate :: bool
  stack :: "channel list"    \<comment> \<open>the channels entered on the AsyncExitStack, newest first\<close>

definition MAX_TIMEOUT :: int where
  "MAX_TIMEOUT = 60 * 60 * 3"

text \<open>The sentinel \<^verbatim>\<open>_UNSET\<close> and \<^verbatim>\<open>_drop_unset\<close>: a keyword whose value is the sentinel
  is not passed on.\<close>

datatype 'a arg = UNSET | Given 'a

definition drop_unset :: "(string \<times> 'a arg) list \<Rightarrow> (string \<times> 'a) list" where
  "drop_unset namespace =
     concat (map (\<lambda>(key, value). case value of UNSET \<Rightarrow> [] | Given v \<Rightarrow> [(key, v)]) namespace)"

text \<open>The keyword arguments of \<^verbatim>\<open>_SFTPChannelPool.__init__\<close> with their defaults:
  \<^verbatim>\<open>max_channels=None, timeout=_MAX_TIMEOUT, unsafe_terminate=True\<close>. The first two
  arrive in a dictionary of keywords (value \<open>None\<close> is Python's None); the third is
  either passed or not.\<close>

definition kw_max_channels :: "(string \<times> int option) list \<Rightarrow> int option" where
  "kw_max_channels kwargs = (case map_of kwargs ''max_channels'' of None \<Rightarrow> None | Some v \<Rightarrow> v)"

definition kw_timeout :: "(string \<times> int option) list \<Rightarrow> int option" where
  "kw_timeout kwargs = (case map_of kwargs ''timeout'' of None \<Rightarrow> Some MAX_TIMEOUT | Some v \<Rightarrow> v)"

definition kw_unsafe_terminate :: "bool option \<Rightarrow> bool" where
  "kw_unsafe_terminate ut = (case ut of None \<Rightarrow> True | Some b \<Rightarrow> b)"

text \<open>The guard of \<^verbatim>\<open>_maybe_new_channel\<close>:
  \<^verbatim>\<open>self.max_channels is None or self.active_channels < self.max_channels\<close>.\<close>

definition may_open :: "'a pool_scheme \<Rightarrow> bool" where
  "may_open p = (case max_channels p of None \<Rightarrow> True | Some m \<Rightarrow> active_channels p < m)"

text \<open>The rest of \<^verbatim>\<open>_maybe_new_channel\<close>, run when the awaited
  \<^verbatim>\<open>start_sftp_client()\<close> answers: a new channel is entered on the stack and returned;
  \<^verbatim>\<open>except ChannelOpenError\<close> sets the limit to the active count of that moment and the
  function falls off its end (returns None); any other exception propagates.\<close>

definition open_reply ::
  "open_result \<Rightarrow> 'a pool_scheme \<Rightarrow> (error + channel option) \<times> 'a pool_scheme" where
  "open_reply res p =
     (case res of
        Opened c \<Rightarrow> (Inr (Some c), p\<lparr>stack := c # stack p\<rparr>)
      | Raised e \<Rightarrow>
          if e = ChannelOpenError
          then (Inr None, p\<lparr>max_channels := Some (active_channels p)\<rparr>)
          else (Inl e, p))"

text \<open>\<^verbatim>\<open>_maybe_new_channel\<close> when nothing else runs while it is suspended.\<close>

definition maybe_new_channel ::
  "open_result \<Rightarrow> 'a pool_scheme \<Rightarrow> (error + channel option) \<times> 'a pool_scheme" where
  "maybe_new_channel res p = (if may_open p then open_reply res p else (Inr None, p))"

subsection \<open>The hard pool\<close>

record hard_pool = pool +
  queue :: "channel list"    \<comment> \<open>asyncio.Queue(0): unbounded, first in first out\<close>

definition hard_init :: "(string \<times> int option) list \<Rightarrow> bool option \<Rightarrow> hard_pool" where
  "hard_init kwargs ut =
     \<lparr>max_channels = kw_max_channels kwargs, active_channels = 0,
      timeout = kw_timeout kwargs, unsafe_terminate = kw_unsafe_terminate ut,
      stack = [], queue = []\<rparr>"

text \<open>
  \<^verbatim>\<open>get\<close> is an asynchronous generator under \<^verbatim>\<open>@asynccontextmanager\<close>. It has two
  suspension points before the \<^verbatim>\<open>yield\<close>: the awaited \<^verbatim>\<open>start_sftp_client()\<close> inside
  \<^verbatim>\<open>_maybe_new_channel\<close>, and the awaited \<^verbatim>\<open>wait_for(self._queue.get(), ...)\<close>. Other
  coroutines run while one is suspended, so a consumer is a task with a control state,
  and the pool moves by events.
\<close>

datatype task =
    Opening "channel option"    \<comment> \<open>suspended in start_sftp_client; the soft pool keeps its least_used_channel\<close>
  | Waiting nat                 \<comment> \<open>suspended in wait_for, for so many time units\<close>
  | Taken channel               \<comment> \<open>wait_for's own task has taken the channel; get() has not resumed yet\<close>
  | Holding channel             \<comment> \<open>at the yield: inside the body of the with block\<close>
  | Exited                      \<comment> \<open>the with block was left\<close>
  | Failed error                \<comment> \<open>get() raised\<close>

text \<open>
  \<^verbatim>\<open>self._queue.get()\<close> followed by \<^verbatim>\<open>self.active_channels += 1\<close>, with nothing in
  between: a queue that holds a channel hands its head out at once; on an empty queue
  the task waits.
\<close>

definition queue_get :: "hard_pool \<Rightarrow> task \<times> hard_pool" where
  "queue_get p =
     (case queue p of
        [] \<Rightarrow> (Waiting 0, p)
      | c # q \<Rightarrow> (Holding c, p\<lparr>active_channels := active_channels p + 1, queue := q\<rparr>))"

text \<open>
  \<^verbatim>\<open>await asyncio.wait_for(self._queue.get(), timeout=self.timeout)\<close>, by the timeout.
  \<^item> None: \<^verbatim>\<open>wait_for\<close> awaits the coroutine in the task of \<^verbatim>\<open>get\<close> itself, so the
    take and the count are one step (\<open>queue_get\<close>).
  \<^item> Positive: up to Python 3.11 \<^verbatim>\<open>wait_for\<close> runs the coroutine in a task of its
    own and suspends \<^verbatim>\<open>get\<close>: other coroutines run before that task looks at the queue,
    and again between its take and the \<^verbatim>\<open>active_channels += 1\<close> of the resumed
    \<^verbatim>\<open>get\<close>. From Python 3.12 on the coroutine is awaited in place; that is the
    schedule in which the three steps follow each other at once.
  \<^item> Zero or less: \<^verbatim>\<open>wait_for\<close> never starts the coroutine: it wraps it in a task,
    finds the new task not done, cancels it and raises TimeoutError. The queue is not
    looked at.
\<close>

definition no_wait :: "'a pool_scheme \<Rightarrow> bool" where
  "no_wait p = (case timeout p of None \<Rightarrow> False | Some t \<Rightarrow> t \<le> 0)"

definition hard_wait :: "hard_pool \<Rightarrow> task \<times> hard_pool" where
  "hard_wait p =
     (if no_wait p then (Failed TimeoutError, p)
      else if timeout p = None then queue_get p
      else (Waiting 0, p))"

text \<open>A waiting task is resumed on a queue that holds a channel: with the timeout None
  it takes and counts the channel; with a positive timeout the task of \<^verbatim>\<open>wait_for\<close>
  takes it, and \<^verbatim>\<open>get\<close> counts it when it resumes.\<close>

definition queue_wake :: "hard_pool \<Rightarrow> task \<times> hard_pool" where
  "queue_wake p =
     (if timeout p = None then queue_get p
      else (case queue p of
              [] \<Rightarrow> (Waiting 0, p)
            | c # q \<Rightarrow> (Taken c, p\<lparr>queue := q\<rparr>)))"

text \<open>
  The statements after the \<^verbatim>\<open>yield\<close>. The generator has no \<^verbatim>\<open>try\<close> around the
  \<^verbatim>\<open>yield\<close>: when the body of the with block raises, the context manager throws the
  exception into the generator at the \<^verbatim>\<open>yield\<close>, it propagates from there, and the
  statements after the \<^verbatim>\<open>yield\<close> do not run.
\<close>

definition hard_get_exit :: "exit_kind \<Rightarrow> channel \<Rightarrow> hard_pool \<Rightarrow> hard_pool" where
  "hard_get_exit k c p =
     (case k of
        Normal \<Rightarrow> p\<lparr>active_channels := active_channels p - 1, queue := queue p @ [c]\<rparr>
      | Raising \<Rightarrow> p)"

record hard_sys =
  hpool :: hard_pool
  htasks :: "task list"

datatype hard_event =
    HGet                      \<comment> \<open>a new consumer calls get(); it becomes the last task\<close>
  | HReply nat open_result    \<comment> \<open>start_sftp_client answers the task\<close>
  | HWake nat                 \<comment> \<open>a waiting task is resumed on a queue that holds a channel\<close>
  | HResume nat               \<comment> \<open>get() resumes with the channel that wait_for's task took\<close>
  | HTick                     \<comment> \<open>one unit of time passes\<close>
  | HExpire nat               \<comment> \<open>wait_for gives up on the task\<close>
  | HExit nat exit_kind       \<comment> \<open>the body of the task's with block ends\<close>

text \<open>
  Time is counted in units (seconds); only a waiting task feels it. An event that is
  not possible in a state gives \<open>None\<close>: an answer for a task that is not opening a
  channel, the end of a body that is not running, an expiry when the timeout is None
  or not yet reached. Which waiting task is resumed when the queue holds a channel is
  left to the schedule.
\<close>

fun tick :: "task \<Rightarrow> task" where
  "tick (Waiting n) = Waiting (Suc n)"
| "tick t = t"

fun hard_step :: "hard_event \<Rightarrow> hard_sys \<Rightarrow> hard_sys option" where
  "hard_step HGet s =
     (if queue (hpool s) = [] \<and> may_open (hpool s)
      then Some (s\<lparr>htasks := htasks s @ [Opening None]\<rparr>)
      else (case hard_wait (hpool s) of
              (t, p') \<Rightarrow> Some \<lparr>hpool = p', htasks = htasks s @ [t]\<rparr>))"
| "hard_step (HReply i res) s =
     (if i < length (htasks s) \<and> htasks s ! i = Opening None
      then (case open_reply res (hpool s) of
              (Inl e, p') \<Rightarrow> Some \<lparr>hpool = p', htasks = (htasks s)[i := Failed e]\<rparr>
            | (Inr (Some c), p') \<Rightarrow>
                Some \<lparr>hpool = p'\<lparr>active_channels := active_channels p' + 1\<rparr>,
                      htasks = (htasks s)[i := Holding c]\<rparr>
            | (Inr None, p') \<Rightarrow>
                (case hard_wait p' of
                   (t, p'') \<Rightarrow> Some \<lparr>hpool = p'', htasks = (htasks s)[i := t]\<rparr>))
      else None)"
| "hard_step (HWake i) s =
     (if i < length (htasks s) \<and> queue (hpool s) \<noteq> []
      then (case htasks s ! i of
              Waiting n \<Rightarrow>
                (case queue_wake (hpool s) of
                   (t, p') \<Rightarrow> Some \<lparr>hpool = p', htasks = (htasks s)[i := t]\<rparr>)
            | _ \<Rightarrow> None)
      else None)"
| "hard_step (HResume i) s =
     (if i < length (htasks s)
      then (case htasks s ! i of
              Taken c \<Rightarrow>
                Some \<lparr>hpool = (hpool s)\<lparr>active_channels := active_channels (hpool s) + 1\<rparr>,
                      htasks = (htasks s)[i := Holding c]\<rparr>
            | _ \<Rightarrow> None)
      else None)"
| "hard_step HTick s = Some (s\<lparr>htasks := map tick (htasks s)\<rparr>)"
| "hard_step (HExpire i) s =
     (if i < length (htasks s)
      then (case htasks s ! i of
              Waiting n \<Rightarrow>
                (case timeout (hpool s) of
                   None \<Rightarrow> None
                 | Some t \<Rightarrow>
                     if t \<le> int n
                     then Some (s\<lparr>htasks := (htasks s)[i := Failed TimeoutError]\<rparr>)
                     else None)
            | _ \<Rightarrow> None)
      else None)"
| "hard_step (HExit i k) s =
     (if i < length (htasks s)
      then (case htasks s ! i of
              Holding c \<Rightarrow>
                Some \<lparr>hpool = hard_get_exit k c (hpool s), htasks = (htasks s)[i := Exited]\<rparr>
            | _ \<Rightarrow> None)
      else None)"

fun hard_run :: "hard_event list \<Rightarrow> hard_sys \<Rightarrow> hard_sys option" where
  "hard_run [] s = Some s"
| "hard_run (ev # evs) s = (case hard_step ev s of None \<Rightarrow> None | Some s' \<Rightarrow> hard_run evs s')"

definition hard_start :: "hard_pool \<Rightarrow> hard_sys" where
  "hard_start p = \<lparr>hpool = p, htasks = []\<rparr>"

subsection \<open>The soft pool\<close>

text \<open>\<^verbatim>\<open>self._channels\<close> is a Counter: a dictionary in insertion order whose missing keys
  read as 0.\<close>

record soft_pool = pool +
  channels :: "(channel \<times> int) list"

definition soft_init :: "(string \<times> int option) list \<Rightarrow> bool option \<Rightarrow> soft_pool" where
  "soft_init kwargs ut =
     \<lparr>max_channels = kw_max_channels kwargs, active_channels = 0,
      timeout = kw_timeout kwargs, unsafe_terminate = kw_unsafe_terminate ut,
      stack = [], channels = []\<rparr>"

definition counter_get :: "(channel \<times> int) list \<Rightarrow> channel \<Rightarrow> int" where
  "counter_get cnt c = (case map_of cnt c of None \<Rightarrow> 0 | Some n \<Rightarrow> n)"

definition counter_add :: "(channel \<times> int) list \<Rightarrow> channel \<Rightarrow> int \<Rightarrow> (channel \<times> int) list" where
  "counter_add cnt c d = AList.update c (counter_get cnt c + d) cnt"

text \<open>\<^verbatim>\<open>heapq.nsmallest(1, items, key)\<close> is \<^verbatim>\<open>min(items, key=key)\<close> in a list, or the empty
  list: the first item, in the order of the dictionary, among those of least count.\<close>

fun nsmallest1 :: "(channel \<times> int) list \<Rightarrow> (channel \<times> int) option" where
  "nsmallest1 [] = None"
| "nsmallest1 (kv # rest) =
     (case nsmallest1 rest of
        None \<Rightarrow> Some kv
      | Some kv' \<Rightarrow> if snd kv' < snd kv then Some kv' else Some kv)"

text \<open>The first statement of \<^verbatim>\<open>get\<close>, with the placeholder \<^verbatim>\<open>_NO_CHANNELS = [[None, 1]]\<close>.\<close>

definition least_used :: "soft_pool \<Rightarrow> channel option \<times> int" where
  "least_used p =
     (case nsmallest1 (channels p) of None \<Rightarrow> (None, 1) | Some (c, n) \<Rightarrow> (Some c, n))"

text \<open>From \<^verbatim>\<open>if least_used_channel is None\<close> to the \<^verbatim>\<open>yield\<close>.\<close>

definition soft_take :: "channel option \<Rightarrow> soft_pool \<Rightarrow> (error + channel) \<times> soft_pool" where
  "soft_take lu p =
     (case lu of
        None \<Rightarrow> (Inl CantCreateConnections, p)
      | Some c \<Rightarrow>
          (Inr c, p\<lparr>active_channels := active_channels p + 1,
                    channels := counter_add (channels p) c 1\<rparr>))"

text \<open>From the answer of \<^verbatim>\<open>_maybe_new_channel\<close> on: a new channel replaces the one
  selected before.\<close>

definition soft_resume ::
  "channel option \<Rightarrow> (error + channel option) \<times> soft_pool \<Rightarrow> (error + channel) \<times> soft_pool" where
  "soft_resume lu r =
     (case r of
        (Inl e, p') \<Rightarrow> (Inl e, p')
      | (Inr None, p') \<Rightarrow> soft_take lu p'
      | (Inr (Some c), p') \<Rightarrow> soft_take (Some c) p')"

text \<open>\<^verbatim>\<open>get\<close> up to its \<^verbatim>\<open>yield\<close>, when nothing else runs while it is suspended.\<close>

definition soft_get_enter :: "open_result \<Rightarrow> soft_pool \<Rightarrow> (error + channel) \<times> soft_pool" where
  "soft_get_enter res p =
     (case least_used p of
        (lu, num_connections) \<Rightarrow>
          if num_connections > 0 then soft_resume lu (maybe_new_channel res p)
          else soft_take lu p)"

definition soft_get_exit :: "exit_kind \<Rightarrow> channel \<Rightarrow> soft_pool \<Rightarrow> soft_pool" where
  "soft_get_exit k c p =
     (case k of
        Normal \<Rightarrow> p\<lparr>active_channels := active_channels p - 1,
                    channels := counter_add (channels p) c (- 1)\<rparr>
      | Raising \<Rightarrow> p)"

record soft_sys =
  spool :: soft_pool
  stasks :: "task list"

datatype soft_event =
    SGet                      \<comment> \<open>a new consumer calls get(); it becomes the last task\<close>
  | SReply nat open_result    \<comment> \<open>start_sftp_client answers the task\<close>
  | SExit nat exit_kind       \<comment> \<open>the body of the task's with block ends\<close>

definition task_of :: "error + channel \<Rightarrow> task" where
  "task_of r = (case r of Inl e \<Rightarrow> Failed e | Inr c \<Rightarrow> Holding c)"

fun soft_step :: "soft_event \<Rightarrow> soft_sys \<Rightarrow> soft_sys option" where
  "soft_step SGet s =
     (case least_used (spool s) of
        (lu, num_connections) \<Rightarrow>
          if num_connections > 0 \<and> may_open (spool s)
          then Some (s\<lparr>stasks := stasks s @ [Opening lu]\<rparr>)
          else (case soft_take lu (spool s) of
                  (r, p') \<Rightarrow> Some \<lparr>spool = p', stasks = stasks s @ [task_of r]\<rparr>))"
| "soft_step (SReply i res) s =
     (if i < length (stasks s)
      then (case stasks s ! i of
              Opening lu \<Rightarrow>
                (case soft_resume lu (open_reply res (spool s)) of
                   (r, p') \<Rightarrow> Some \<lparr>spool = p', stasks = (stasks s)[i := task_of r]\<rparr>)
            | _ \<Rightarrow> None)
      else None)"
| "soft_step (SExit i k) s =
     (if i < length (stasks s)
      then (case stasks s ! i of
              Holding c \<Rightarrow>
                Some \<lparr>spool = soft_get_exit k c (spool s), stasks = (stasks s)[i := Exited]\<rparr>
            | _ \<Rightarrow> None)
      else None)"

fun soft_run :: "soft_event list \<Rightarrow> soft_sys \<Rightarrow> soft_sys option" where
  "soft_run [] s = Some s"
| "soft_run (ev # evs) s = (case soft_step ev s of None \<Rightarrow> None | Some s' \<Rightarrow> soft_run evs s')"

definition soft_start :: "soft_pool \<Rightarrow> soft_sys" where
  "soft_start p = \<lparr>spool = p, stasks = []\<rparr>"

subsection \<open>Closing a pool\<close>

text \<open>
  Leaving the context of one channel, \<^verbatim>\<open>__aexit__\<close> of asyncssh's SFTP client, returns
  a value (a true one suppresses the exception it was handed) or raises. It is not code
  of this repository: the pool is closed against a parameter that says, for a channel
  and the exception pending at that moment, what leaving it gives.
\<close>

datatype exit_result = Returned bool | Threw error

type_synonym teardown = "channel \<Rightarrow> error option \<Rightarrow> exit_result"

text \<open>One round of the loop of \<^verbatim>\<open>AsyncExitStack.__aexit__\<close>: a callback that raises
  replaces the pending exception, one that returns a true value clears it.\<close>

definition exit_reply :: "exit_result \<Rightarrow> error option \<Rightarrow> error option" where
  "exit_reply r pend = (case r of Returned b \<Rightarrow> (if b then None else pend) | Threw e \<Rightarrow> Some e)"

text \<open>The end of that loop: \<^verbatim>\<open>if pending_raise: raise\<close>.\<close>

definition raise_pending :: "error option \<Rightarrow> error + unit" where
  "raise_pending pend = (case pend of None \<Rightarrow> Inr () | Some e \<Rightarrow> Inl e)"

text \<open>The whole loop when nothing else runs while a channel is left: the callbacks are
  popped from the last one entered to the first, and a callback that raises does not
  stop the loop.\<close>

fun unwind :: "teardown \<Rightarrow> channel list \<Rightarrow> error option \<Rightarrow> error option" where
  "unwind td [] pend = pend"
| "unwind td (c # cs) pend = unwind td cs (exit_reply (td c pend) pend)"

text \<open>\<^verbatim>\<open>await self._stack.aclose()\<close>, in one piece.\<close>

definition aclose :: "teardown \<Rightarrow> 'a pool_scheme \<Rightarrow> (error + unit) \<times> 'a pool_scheme" where
  "aclose td p = (raise_pending (unwind td (stack p) None), p\<lparr>stack := []\<rparr>)"

text \<open>
  \<^verbatim>\<open>close\<close>, in one piece. It raises when channels are active and the pool must not
  terminate them (\<^verbatim>\<open>self.active_channels\<close> is true when it is not 0). Otherwise it runs
  the cleanup of the subclass under \<^verbatim>\<open>suppress(Exception)\<close> (neither cleanup raises, and
  neither suspends, nor does taking the new lock) and then closes the exit stack,
  outside the \<^verbatim>\<open>suppress\<close> block: what \<^verbatim>\<open>aclose\<close> raises, \<^verbatim>\<open>close\<close> raises.
\<close>

definition close ::
  "('a pool_scheme \<Rightarrow> 'a pool_scheme) \<Rightarrow> teardown \<Rightarrow> 'a pool_scheme
     \<Rightarrow> (error + unit) \<times> 'a pool_scheme" where
  "close cleanup td p =
     (if active_channels p \<noteq> 0 \<and> \<not> unsafe_terminate p then (Inl CantBeClosed, p)
      else aclose td (cleanup p))"



definition soft_cleanup :: "soft_pool \<Rightarrow> soft_pool" where
  "soft_cleanup p = p\<lparr>channels := []\<rparr>"


definition soft_close :: "teardown \<Rightarrow> soft_pool \<Rightarrow> (error + unit) \<times> soft_pool" where
  "soft_close = close soft_cleanup"

text \<open>
  \<^verbatim>\<open>close\<close> step by step. Leaving a channel suspends \<^verbatim>\<open>close\<close> (\<^verbatim>\<open>__aexit__\<close> awaits
  the end of the channel), and the consumers of the pool run meanwhile. From the call
  to the first suspension nothing else runs: the test, the cleanup, and the pop of the
  first callback. When a callback has answered, the loop pops the next callback of
  the stack as it is then, or ends.
\<close>

datatype closer =
    Idle                              \<comment> \<open>close() has not been called\<close>
  | Leaving channel "error option"    \<comment> \<open>suspended in the callback of this channel\<close>
  | Closed "error + unit"             \<comment> \<open>close() has returned or raised\<close>

definition close_next :: "error option \<Rightarrow> 'a pool_scheme \<Rightarrow> closer \<times> 'a pool_scheme" where
  "close_next pend p =
     (case stack p of
        [] \<Rightarrow> (Closed (raise_pending pend), p)
      | c # cs \<Rightarrow> (Leaving c pend, p\<lparr>stack := cs\<rparr>))"

definition close_begin ::
  "('a pool_scheme \<Rightarrow> 'a pool_scheme) \<Rightarrow> 'a pool_scheme \<Rightarrow> closer \<times> 'a pool_scheme" where
  "close_begin cleanup p =
     (if active_channels p \<noteq> 0 \<and> \<not> unsafe_terminate p then (Closed (Inl CantBeClosed), p)
      else close_next None (cleanup p))"





record soft_closing =
  ssys :: soft_sys
  scloser :: closer

datatype soft_close_event = SRun soft_event | SClose | SLeft exit_result

fun soft_close_step :: "soft_close_event \<Rightarrow> soft_closing \<Rightarrow> soft_closing option" where
  "soft_close_step (SRun ev) s =
     (case soft_step ev (ssys s) of None \<Rightarrow> None | Some h \<Rightarrow> Some (s\<lparr>ssys := h\<rparr>))"
| "soft_close_step SClose s =
     (case scloser s of
        Idle \<Rightarrow>
          (case close_begin soft_cleanup (spool (ssys s)) of
             (cl, p') \<Rightarrow> Some \<lparr>ssys = (ssys s)\<lparr>spool := p'\<rparr>, scloser = cl\<rparr>)
      | _ \<Rightarrow> None)"
| "soft_close_step (SLeft r) s =
     (case scloser s of
        Leaving c pend \<Rightarrow>
          (case close_next (exit_reply r pend) (spool (ssys s)) of
             (cl, p') \<Rightarrow> Some \<lparr>ssys = (ssys s)\<lparr>spool := p'\<rparr>, scloser = cl\<rparr>)
      | _ \<Rightarrow> None)"



subsection \<open>The file system's pool and the constructor of a file\<close>

text \<open>\<^verbatim>\<open>SSHFileSystem.__init__\<close> builds \<^verbatim>\<open>_pool_args\<close> with \<^verbatim>\<open>_drop_unset\<close> from
  \<^verbatim>\<open>max_sftp_channels\<close> and \<^verbatim>\<open>max_sftp_channel_wait_timeout\<close>, both \<^verbatim>\<open>_UNSET\<close> by default,
  and \<^verbatim>\<open>_connect\<close> passes them to the pool type.\<close>

definition pool_args :: "int option arg \<Rightarrow> int option arg \<Rightarrow> (string \<times> int option) list" where
  "pool_args max_sftp_channels max_sftp_channel_wait_timeout =
     drop_unset [(''max_channels'', max_sftp_channels),
                 (''timeout'', max_sftp_channel_wait_timeout)]"

record sshfile =
  f_path :: string
  f_mode :: string
  f_location :: string
  f_file :: "nat option"        \<comment> \<open>self._file: the remote file once it is open\<close>
  f_stack :: "channel list"     \<comment> \<open>self._stack: the pool contexts entered for this file\<close>

text \<open>\<^verbatim>\<open>posixpath.join\<close> with a second part that does not start with a slash.\<close>

definition posix_join :: "string \<Rightarrow> string \<Rightarrow> string" where
  "posix_join a b = (if a = [] \<or> last a = CHR ''/'' then a @ b else a @ ''/'' @ b)"

text \<open>\<^verbatim>\<open>_get_tmp_file\<close>; the random token of \<^verbatim>\<open>secrets.token_hex(16)\<close> is a parameter.\<close>

definition get_tmp_file :: "string \<Rightarrow> string \<Rightarrow> string" where
  "get_tmp_file tok path = posix_join path (''.tmp.'' @ tok)"

text \<open>
  \<^verbatim>\<open>SSHFile.__init__\<close> sets \<^verbatim>\<open>self._file\<close> and calls the constructor of its base class
  before anything else. The base class is fsspec's AbstractBufferedFile, not code of
  this repository: its constructor is the parameter \<open>base\<close>. It raises, or it returns
  with \<^verbatim>\<open>self.path\<close> and \<^verbatim>\<open>self.mode\<close> stored; the number beside its answer counts the
  channels it took from the pool while it ran. \<^verbatim>\<open>fs._parent\<close> is fsspec's as well, the
  parameter \<open>parent\<close>. SSHFile itself takes a channel and opens the remote file later,
  in \<^verbatim>\<open>_async_open_file\<close>.
\<close>

record base_file =
  b_path :: string
  b_mode :: string

type_synonym base_init = "string \<Rightarrow> string \<Rightarrow> (error + base_file) \<times> nat"

definition SSHFile_init ::
  "base_init \<Rightarrow> (string \<Rightarrow> string) \<Rightarrow> string \<Rightarrow> string \<Rightarrow> string
     \<Rightarrow> (error + sshfile) \<times> nat" where
  "SSHFile_init base parent tok path mode =
     (case base path mode of
        (Inl e, k) \<Rightarrow> (Inl e, k)
      | (Inr b, k) \<Rightarrow>
          if b_mode b \<notin> {''rb'', ''wb''} then (Inl (UnsupportedMode (b_mode b)), k)
          else (Inr \<lparr>f_path = b_path b, f_mode = b_mode b,
                     f_location = (if CHR ''w'' \<in> set (b_mode b)
                                   then get_tmp_file tok (parent (b_path b)) else b_path b),
                     f_file = None, f_stack = []\<rparr>, k))"

text \<open>
  The constructor of AbstractBufferedFile as far as SSHFile depends on it, called as
  \<^verbatim>\<open>SSHFileSystem._open\<close> calls it, with no size. It stores path and mode, raises
  NotImplementedError for a mode outside the set it supports (\<^verbatim>\<open>"ab"\<close>, \<^verbatim>\<open>"rb"\<close>, \<^verbatim>\<open>"wb"\<close>;
  later releases add \<^verbatim>\<open>"xb"\<close>), and for \<^verbatim>\<open>"rb"\<close> reads the size of the file from
  \<^verbatim>\<open>fs.info(path)\<close>: \<^verbatim>\<open>SSHFileSystem._info\<close>, which takes a channel from the pool
  for its \<^verbatim>\<open>stat\<close> and raises when the path cannot be read. The set of modes and the
  answer of \<^verbatim>\<open>fs.info\<close> are parameters.
\<close>

definition fsspec_init :: "string set \<Rightarrow> (string \<Rightarrow> error + nat) \<Rightarrow> base_init" where
  "fsspec_init modes info path mode =
     (if mode \<notin> modes then (Inl NotImplementedError, 0)
      else if mode = ''rb''
      then (case info path of
              Inl e \<Rightarrow> (Inl e, 1)
            | Inr n \<Rightarrow> (Inr \<lparr>b_path = path, b_mode = mode\<rparr>, 1))
      else (Inr \<lparr>b_path = path, b_mode = mode\<rparr>, 0))"

subsection \<open>The invariant of the soft pool\<close>

text \<open>The counts of the usage map add up to the active count, none is negative, and
  a channel is held by at most as many tasks as its count says.\<close>

definition soft_inv :: "soft_sys \<Rightarrow> bool" where
  "soft_inv s \<longleftrightarrow>
     sum_list (map snd (channels (spool s))) = active_channels (spool s)
     \<and> (\<forall>n \<in> set (map snd (channels (spool s))). 0 \<le> n)
     \<and> (\<forall>c. int (count_list (stasks s) (Holding c)) \<le> counter_get (channels (spool s)) c)"

subsection \<open>The limit after a refusal\<close>

text \<open>
  Sequential use of the soft pool: an acquisition runs from the call of \<^verbatim>\<open>get\<close> to
  its \<^verbatim>\<open>yield\<close> with nothing in between, and a channel that the connection opens is a
  new object, none of those on the exit stack.
\<close>

datatype soft_op = Acquire open_result | Release nat exit_kind

text \<open>An acquisition of the soft pool in this state calls \<^verbatim>\<open>start_sftp_client()\<close>.\<close>

definition soft_attempts :: "soft_pool \<Rightarrow> bool" where
  "soft_attempts p \<longleftrightarrow> 0 < snd (least_used p) \<and> may_open p"

fun soft_seq_step :: "soft_op \<Rightarrow> soft_sys \<Rightarrow> soft_sys option" where
  "soft_seq_step (Acquire res) s =
     (if (case res of Opened c \<Rightarrow> c \<in> set (stack (spool s)) | Raised e \<Rightarrow> False) then None
      else soft_run (if soft_attempts (spool s)
                     then [SGet, SReply (length (stasks s)) res] else [SGet]) s)"
| "soft_seq_step (Release i k) s = soft_step (SExit i k) s"

fun soft_seq_run :: "soft_op list \<Rightarrow> soft_sys \<Rightarrow> soft_sys option" where
  "soft_seq_run [] s = Some s"
| "soft_seq_run (x # xs) s =
     (case soft_seq_step x s of None \<Rightarrow> None | Some s' \<Rightarrow> soft_seq_run xs s')"

text \<open>The keys of the usage map are distinct channels of the exit stack.\<close>

definition soft_known :: "soft_pool \<Rightarrow> bool" where
  "soft_known p \<longleftrightarrow>
     fst ` set (channels p) \<subseteq> set (stack p) \<and> distinct (map fst (channels p))"

text \<open>As long as the pool has fewer channels than its limit allows, no channel is
  shared: every count is at most 1.\<close>

definition below_limit :: "soft_pool \<Rightarrow> bool" where
  "below_limit p \<longleftrightarrow>
     (case max_channels p of None \<Rightarrow> True | Some m \<Rightarrow> int (length (channels p)) < m)"

definition soft_unshared :: "soft_pool \<Rightarrow> bool" where
  "soft_unshared p \<longleftrightarrow> (below_limit p \<longrightarrow> (\<forall>n \<in> set (map snd (channels p)). n \<le> 1))"

definition soft_counts :: "soft_pool \<Rightarrow> bool" where
  "soft_counts p \<longleftrightarrow>
     sum_list (map snd (channels p)) = active_channels p
     \<and> (\<forall>n \<in> set (map snd (channels p)). 0 \<le> n)"

definition seq_ok :: "soft_pool \<Rightarrow> bool" where
  "seq_ok p \<longleftrightarrow> soft_counts p \<and> soft_known p \<and> soft_unshared p"

text \<open>A limit at or below the number of channels.\<close>

definition soft_frozen :: "int \<Rightarrow> soft_sys \<Rightarrow> bool" where
  "soft_frozen k s \<longleftrightarrow>
     soft_inv s \<and> soft_known (spool s) \<and> max_channels (spool s) = Some k
     \<and> k \<le> int (length (channels (spool s)))"

subsection \<open>Auxiliary facts\<close>

lemmas init_simps = hard_init_def soft_init_def hard_start_def soft_start_def
  kw_max_channels_def kw_timeout_def kw_unsafe_terminate_def MAX_TIMEOUT_def pool_args_def
  drop_unset_def

lemmas op_simps = may_open_def open_reply_def hard_wait_def queue_get_def queue_wake_def
  no_wait_def
  hard_get_exit_def least_used_def
  soft_take_def soft_resume_def soft_get_exit_def task_of_def counter_get_def counter_add_def


lemma nsmallest1_None: "nsmallest1 xs = None \<longleftrightarrow> xs = []"
  by (cases xs) (auto split: option.splits)

lemma nsmallest1_least:
  "nsmallest1 xs = Some (c, n) \<Longrightarrow> (c, n) \<in> set xs \<and> (\<forall>(c', n') \<in> set xs. n \<le> n')"
proof (induction xs arbitrary: c n)
  case Nil
  then show ?case by simp
next
  case (Cons kv rest)
  show ?case
  proof (cases "nsmallest1 rest")
    case None
    then have "rest = []" by (simp add: nsmallest1_None)
    with Cons.prems show ?thesis by auto
  next
    case (Some kv')
    obtain c' n' where kv': "kv' = (c', n')" by (cases kv')
    from Cons.IH [of c' n'] Some kv'
    have ih: "(c', n') \<in> set rest" "\<forall>(a, b) \<in> set rest. n' \<le> b" by auto
    show ?thesis
    proof (cases "n' < snd kv")
      case True
      with Cons.prems Some kv' have "(c, n) = (c', n')" by simp
      with ih True show ?thesis by (cases kv) auto
    next
      case False
      with Cons.prems Some kv' have "kv = (c, n)" by simp
      with ih False show ?thesis by fastforce
    qed
  qed
qed


text \<open>An acquisition of the soft pool during which nothing else runs is
  \<^verbatim>\<open>soft_get_enter\<close>.\<close>

lemma soft_get_atomic:
  "soft_run (if 0 < snd (least_used (spool s)) \<and> may_open (spool s)
             then [SGet, SReply (length (stasks s)) res] else [SGet]) s
     = Some \<lparr>spool = snd (soft_get_enter res (spool s)),
             stasks = stasks s @ [task_of (fst (soft_get_enter res (spool s)))]\<rparr>"
proof -
  obtain lu n where lu: "least_used (spool s) = (lu, n)" by (cases "least_used (spool s)")
  show ?thesis
  proof (cases "0 < n \<and> may_open (spool s)")
    case True
    obtain r p' where r: "soft_resume lu (open_reply res (spool s)) = (r, p')"
      by (cases "soft_resume lu (open_reply res (spool s))")
    with True lu show ?thesis
      by (simp add: soft_get_enter_def maybe_new_channel_def)
  next
    case False
    obtain r p' where r: "soft_take lu (spool s) = (r, p')"
      by (cases "soft_take lu (spool s)")
    with False lu show ?thesis
      by (auto simp: soft_get_enter_def maybe_new_channel_def soft_resume_def)
  qed
qed

text \<open>The usage map.\<close>

lemma sum_update:
  "sum_list (map snd (AList.update k v al)) = sum_list (map snd al) - counter_get al k + v"
  by (induction al) (auto simp: counter_get_def)

lemma sum_counter_add: "sum_list (map snd (counter_add al c d)) = sum_list (map snd al) + d"
  by (simp add: counter_add_def sum_update)

lemma counter_get_add:
  "counter_get (counter_add al c d) c' = (if c' = c then counter_get al c + d else counter_get al c')"
  by (simp add: counter_add_def counter_get_def update_conv')

lemma counter_get_nonneg:
  "\<forall>n \<in> set (map snd al). 0 \<le> n \<Longrightarrow> 0 \<le> counter_get al c"
  by (auto simp: counter_get_def split: option.splits dest!: map_of_SomeD)

lemma update_nonneg:
  "\<forall>n \<in> set (map snd al). (0::int) \<le> n \<Longrightarrow> 0 \<le> v \<Longrightarrow> \<forall>n \<in> set (map snd (AList.update k v al)). 0 \<le> n"
  by (induction al) auto

lemma counter_add_nonneg:
  "\<forall>n \<in> set (map snd al). 0 \<le> n \<Longrightarrow> 0 \<le> counter_get al c + d
     \<Longrightarrow> \<forall>n \<in> set (map snd (counter_add al c d)). 0 \<le> n"
  unfolding counter_add_def by (rule update_nonneg)

lemma count_list_update:
  "i < length xs \<Longrightarrow>
     int (count_list (xs[i := y]) z)
       = int (count_list xs z) - (if xs ! i = z then 1 else 0) + (if y = z then 1 else 0)"
proof (induction xs arbitrary: i)
  case Nil
  then show ?case by simp
next
  case (Cons x xs)
  show ?case
  proof (cases i)
    case 0
    then show ?thesis by simp
  next
    case (Suc j)
    with Cons.prems have "j < length xs" by simp
    from Cons.IH [OF this] Suc show ?thesis by (auto split: if_splits)
  qed
qed

lemma count_list_snoc: "count_list (xs @ [y]) z = count_list xs z + (if y = z then 1 else 0)"
  by (induction xs) auto

lemma count_pos_nth: "i < length xs \<Longrightarrow> xs ! i = z \<Longrightarrow> 0 < count_list xs z"
  by (metis count_list_0_iff nth_mem not_gr_zero)

lemma soft_take_inv:
  assumes "soft_inv \<lparr>spool = p, stasks = ts\<rparr>" "soft_take lu p = (r, p')"
  shows "sum_list (map snd (channels p')) = active_channels p'"
    and "\<forall>n \<in> set (map snd (channels p')). 0 \<le> n"
    and "\<forall>c. int (count_list ts (Holding c)) + (if task_of r = Holding c then 1 else 0)
            \<le> counter_get (channels p') c"
proof -
  from assms(1) have s: "sum_list (map snd (channels p)) = active_channels p"
    and n: "\<forall>n \<in> set (map snd (channels p)). 0 \<le> n"
    and h: "\<And>c. int (count_list ts (Holding c)) \<le> counter_get (channels p) c"
    by (simp_all add: soft_inv_def)
  show "sum_list (map snd (channels p')) = active_channels p'"
    using assms(2) s by (cases lu) (auto simp: soft_take_def sum_counter_add)
  show "\<forall>n \<in> set (map snd (channels p')). 0 \<le> n"
  proof (cases lu)
    case None
    with assms(2) n show ?thesis by (simp add: soft_take_def)
  next
    case (Some c)
    from counter_get_nonneg [OF n, of c] have "0 \<le> counter_get (channels p) c + 1" by simp
    from counter_add_nonneg [OF n this] Some assms(2) show ?thesis
      by (auto simp: soft_take_def)
  qed
  show "\<forall>c. int (count_list ts (Holding c)) + (if task_of r = Holding c then 1 else 0)
            \<le> counter_get (channels p') c"
  proof (cases lu)
    case None
    with assms(2) h show ?thesis by (auto simp: soft_take_def task_of_def)
  next
    case (Some c)
    with assms(2) have "r = Inr c" "channels p' = counter_add (channels p) c 1"
      by (auto simp: soft_take_def)
    then show ?thesis using h
      by (auto simp: task_of_def counter_get_add intro: order_trans)
  qed
qed

lemma soft_inv_pool_cong:
  "soft_inv \<lparr>spool = p, stasks = ts\<rparr> \<Longrightarrow> channels q = channels p
     \<Longrightarrow> active_channels q = active_channels p \<Longrightarrow> soft_inv \<lparr>spool = q, stasks = ts\<rparr>"
  by (simp add: soft_inv_def)

lemma open_reply_keeps:
  "open_reply res p = (r, q) \<Longrightarrow> channels q = channels p \<and> active_channels q = active_channels p"
  by (auto simp: open_reply_def split: open_result.splits if_splits)

lemma soft_step_inv:
  assumes inv: "soft_inv s" and step: "soft_step ev s = Some s'"
  shows "soft_inv s'"
proof (cases ev)
  case SGet
  obtain lu n where lu: "least_used (spool s) = (lu, n)" by (cases "least_used (spool s)")
  show ?thesis
  proof (cases "n > 0 \<and> may_open (spool s)")
    case True
    with step SGet lu have "s' = s\<lparr>stasks := stasks s @ [Opening lu]\<rparr>" by simp
    with inv show ?thesis by (simp add: soft_inv_def count_list_snoc)
  next
    case False
    obtain r p' where t: "soft_take lu (spool s) = (r, p')" by (cases "soft_take lu (spool s)")
    with False step SGet lu
    have s': "s' = \<lparr>spool = p', stasks = stasks s @ [task_of r]\<rparr>" by auto
    from inv have "soft_inv \<lparr>spool = spool s, stasks = stasks s\<rparr>" by (simp add: soft_inv_def)
    from soft_take_inv [OF this t] s' show ?thesis
      by (fastforce simp: soft_inv_def count_list_snoc split: if_splits)
  qed
next
  case (SReply i res)
  with step have i: "i < length (stasks s)" by (simp split: if_splits)
  with step SReply obtain lu where lu: "stasks s ! i = Opening lu"
    by (auto split: task.splits)
  obtain r p' where r: "soft_resume lu (open_reply res (spool s)) = (r, p')"
    by (cases "soft_resume lu (open_reply res (spool s))")
  with step SReply i lu
  have s': "s' = \<lparr>spool = p', stasks = (stasks s)[i := task_of r]\<rparr>" by simp
  obtain o1 p1 where o: "open_reply res (spool s) = (o1, p1)"
    by (cases "open_reply res (spool s)")
  from inv have "soft_inv \<lparr>spool = spool s, stasks = stasks s\<rparr>" by (simp add: soft_inv_def)
  from soft_inv_pool_cong [OF this] open_reply_keeps [OF o]
  have inv1: "soft_inv \<lparr>spool = p1, stasks = stasks s\<rparr>" by simp
  have cnt: "int (count_list ((stasks s)[i := task_of r]) (Holding c))
       = int (count_list (stasks s) (Holding c)) + (if task_of r = Holding c then 1 else 0)" for c
    using count_list_update [OF i, of "task_of r" "Holding c"] lu by simp
  show ?thesis
  proof (cases o1)
    case (Inl e)
    with r o have "r = Inl e" "p' = p1" by (simp_all add: soft_resume_def)
    with inv1 s' cnt show ?thesis by (simp add: soft_inv_def task_of_def)
  next
    case (Inr co)
    with r o obtain lu' where "soft_take lu' p1 = (r, p')"
      by (cases co) (auto simp: soft_resume_def)
    from soft_take_inv [OF inv1 this] s' cnt show ?thesis
      by (fastforce simp: soft_inv_def split: if_splits)
  qed
next
  case (SExit i k)
  with step have i: "i < length (stasks s)" by (simp split: if_splits)
  with step SExit obtain c where c: "stasks s ! i = Holding c"
    by (auto split: task.splits)
  with step SExit i
  have s': "s' = \<lparr>spool = soft_get_exit k c (spool s), stasks = (stasks s)[i := Exited]\<rparr>"
    by simp
  from inv have sm: "sum_list (map snd (channels (spool s))) = active_channels (spool s)"
    and nn: "\<forall>n \<in> set (map snd (channels (spool s))). 0 \<le> n"
    and h: "\<And>d. int (count_list (stasks s) (Holding d)) \<le> counter_get (channels (spool s)) d"
    by (simp_all add: soft_inv_def)
  have cnt: "int (count_list ((stasks s)[i := Exited]) (Holding d))
       = int (count_list (stasks s) (Holding d)) - (if d = c then 1 else 0)" for d
    using count_list_update [OF i, of Exited "Holding d"] c by auto
  from count_pos_nth [OF i c] h [of c] have pos: "1 \<le> counter_get (channels (spool s)) c"
    by linarith
  have hold: "int (count_list ((stasks s)[i := Exited]) (Holding d))
       \<le> counter_get (channels (spool s)) d - (if d = c then 1 else 0)" for d
    using cnt [of d] h [of d] by simp
  show ?thesis
  proof (cases k)
    case Raising
    have "int (count_list ((stasks s)[i := Exited]) (Holding d))
       \<le> counter_get (channels (spool s)) d" for d
      using hold [of d] by (cases "d = c") simp_all
    with Raising s' sm nn show ?thesis
      by (simp add: soft_inv_def soft_get_exit_def)
  next
    case Normal
    from pos have "0 \<le> counter_get (channels (spool s)) c + (- 1)" by simp
    from counter_add_nonneg [OF nn this]
    have nn': "\<forall>n \<in> set (map snd (counter_add (channels (spool s)) c (- 1))). 0 \<le> n" .
    have "int (count_list ((stasks s)[i := Exited]) (Holding d))
       \<le> counter_get (counter_add (channels (spool s)) c (- 1)) d" for d
      using hold [of d] by (cases "d = c") (simp_all add: counter_get_add)
    with Normal s' sm nn' show ?thesis
      by (simp add: soft_inv_def soft_get_exit_def sum_counter_add)
  qed
qed

lemma soft_run_inv: "soft_inv s \<Longrightarrow> soft_run evs s = Some s' \<Longrightarrow> soft_inv s'"
proof (induction evs arbitrary: s)
  case Nil
  then show ?case by simp
next
  case (Cons ev evs)
  from Cons.prems(2) obtain s1 where s1: "soft_step ev s = Some s1" "soft_run evs s1 = Some s'"
    by (auto split: option.splits)
  from soft_step_inv [OF Cons.prems(1) s1(1)] Cons.IH s1(2) show ?case by blast
qed

lemma soft_inv_start: "soft_inv (soft_start (soft_init kwargs ut))"
  by (simp add: soft_inv_def soft_start_def soft_init_def counter_get_def)

text \<open>Runs of the hard pool.\<close>

lemma hard_run_append:
  "hard_run (xs @ ys) s = (case hard_run xs s of None \<Rightarrow> None | Some s' \<Rightarrow> hard_run ys s')"
  by (induction xs arbitrary: s) (auto split: option.splits)

lemma hard_run_ticks:
  "hard_run (replicate n HTick) s = Some (s\<lparr>htasks := map (tick ^^ n) (htasks s)\<rparr>)"
proof (induction n arbitrary: s)
  case 0
  then show ?case by (simp add: map_idI)
next
  case (Suc n)
  have "map (tick ^^ n) (map tick ts) = map (tick ^^ Suc n) ts" for ts
    by (simp add: funpow_swap1)
  with Suc show ?case by simp
qed

lemma ticks_Waiting: "(tick ^^ n) (Waiting m) = Waiting (m + n)"
  by (induction n) simp_all

lemma ticks_other: "\<forall>m. t \<noteq> Waiting m \<Longrightarrow> (tick ^^ n) t = t"
  by (induction n) (cases t; simp)+

lemma hard_get_to_waiting:
  assumes "queue (hpool s) = []" "\<not> no_wait (hpool s)"
  shows "\<exists>s1. hard_run (if may_open (hpool s)
                  then [HGet, HReply (length (htasks s)) (Raised ChannelOpenError)]
                  else [HGet]) s = Some s1
     \<and> htasks s1 = htasks s @ [Waiting 0]
     \<and> active_channels (hpool s1) = active_channels (hpool s)
     \<and> queue (hpool s1) = []
     \<and> timeout (hpool s1) = timeout (hpool s)"
  using assms by (simp add: open_reply_def hard_wait_def queue_get_def no_wait_def)

lemma hard_get_no_wait:
  assumes "queue (hpool s) = []" "no_wait (hpool s)"
  shows "\<exists>s1. hard_run (if may_open (hpool s)
                  then [HGet, HReply (length (htasks s)) (Raised ChannelOpenError)]
                  else [HGet]) s = Some s1
     \<and> htasks s1 = htasks s @ [Failed TimeoutError]
     \<and> active_channels (hpool s1) = active_channels (hpool s)
     \<and> queue (hpool s1) = []"
  using assms by (simp add: open_reply_def hard_wait_def no_wait_def)

lemma hard_get_nonempty:
  "queue (hpool s) = c # q \<Longrightarrow> timeout (hpool s) = None \<Longrightarrow>
     hard_step HGet s = Some \<lparr>hpool = (hpool s)\<lparr>active_channels := active_channels (hpool s) + 1,
                                            queue := q\<rparr>,
                             htasks = htasks s @ [Holding c]\<rparr>"
  by (simp add: hard_wait_def queue_get_def no_wait_def)

lemma hard_gets_drain_in_order:
  "n \<le> length (queue (hpool s)) \<Longrightarrow> timeout (hpool s) = None \<Longrightarrow>
     hard_run (replicate n HGet) s
       = Some \<lparr>hpool = (hpool s)\<lparr>active_channels := active_channels (hpool s) + int n,
                               queue := drop n (queue (hpool s))\<rparr>,
               htasks = htasks s @ map Holding (take n (queue (hpool s)))\<rparr>"
proof (induction n arbitrary: s)
  case 0
  then show ?case by simp
next
  case (Suc n)
  then obtain c q where q: "queue (hpool s) = c # q" by (cases "queue (hpool s)") auto
  let ?s1 = "\<lparr>hpool = (hpool s)\<lparr>active_channels := active_channels (hpool s) + 1, queue := q\<rparr>,
              htasks = htasks s @ [Holding c]\<rparr>"
  from Suc.prems q have "n \<le> length (queue (hpool ?s1))" "timeout (hpool ?s1) = None"
    by simp_all
  from Suc.IH [OF this] hard_get_nonempty [OF q Suc.prems(2)] q show ?case by simp
qed

lemma hard_step_unexpired:
  assumes "timeout (hpool s) = None" "i < length (htasks s)"
    and "(\<exists>m. htasks s ! i = Waiting m) \<or> (\<exists>c. htasks s ! i = Holding c) \<or> htasks s ! i = Exited"
    and "hard_step ev s = Some s'"
  shows "timeout (hpool s') = None \<and> i < length (htasks s')
    \<and> ((\<exists>m. htasks s' ! i = Waiting m) \<or> (\<exists>c. htasks s' ! i = Holding c) \<or> htasks s' ! i = Exited)
    \<and> (\<forall>j. ev \<noteq> HExpire j)"
proof (cases ev)
  case HGet
  with assms show ?thesis
    by (auto simp: hard_wait_def queue_get_def no_wait_def nth_append split: if_splits list.splits)
next
  case (HReply j res)
  with assms have j: "j < length (htasks s)" "htasks s ! j = Opening None"
    by (auto split: if_splits)
  with assms(3) have ne: "j \<noteq> i" by auto
  from HReply assms(1,2,4) j ne show ?thesis using assms(3)
    by (auto simp: open_reply_def hard_wait_def queue_get_def no_wait_def
        split: if_splits list.splits open_result.splits)
next
  case (HWake j)
  with assms show ?thesis
    by (cases "j = i")
      (auto simp: hard_wait_def queue_get_def queue_wake_def no_wait_def
        split: if_splits list.splits task.splits)
next
  case HTick
  with assms show ?thesis by auto
next
  case (HExpire j)
  with assms show ?thesis by (auto split: if_splits task.splits)
next
  case (HResume j)
  with assms show ?thesis
    by (cases "j = i") (auto split: if_splits task.splits)
next
  case (HExit j k)
  with assms show ?thesis
    by (cases "j = i"; cases k)
      (auto simp: hard_get_exit_def split: if_splits task.splits)
qed

lemma hard_run_unexpired:
  assumes "timeout (hpool s) = None" "i < length (htasks s)"
    and "(\<exists>m. htasks s ! i = Waiting m) \<or> (\<exists>c. htasks s ! i = Holding c) \<or> htasks s ! i = Exited"
    and "hard_run evs s = Some s'"
  shows "(\<forall>j. HExpire j \<notin> set evs) \<and> i < length (htasks s')
    \<and> ((\<exists>m. htasks s' ! i = Waiting m) \<or> (\<exists>c. htasks s' ! i = Holding c) \<or> htasks s' ! i = Exited)"
  using assms
proof (induction evs arbitrary: s)
  case Nil
  then show ?case by simp
next
  case (Cons ev evs)
  from Cons.prems(4) obtain s1 where s1: "hard_step ev s = Some s1" "hard_run evs s1 = Some s'"
    by (auto split: option.splits)
  from hard_step_unexpired [OF Cons.prems(1-3) s1(1)]
  have a: "timeout (hpool s1) = None" "i < length (htasks s1)"
    "(\<exists>m. htasks s1 ! i = Waiting m) \<or> (\<exists>c. htasks s1 ! i = Holding c) \<or> htasks s1 ! i = Exited"
    "\<forall>j. ev \<noteq> HExpire j"
    by blast+
  from Cons.IH [OF a(1-3) s1(2)] a(4) show ?case by auto
qed

text \<open>The limit of the soft pool after a refusal, in sequential use.\<close>

lemma sum_ge_length: "\<forall>n \<in> set xs. (1::int) \<le> n \<Longrightarrow> int (length xs) \<le> sum_list xs"
  by (induction xs) auto

lemma sum_le_length: "\<forall>n \<in> set xs. n \<le> (1::int) \<Longrightarrow> sum_list xs \<le> int (length xs)"
  by (induction xs) auto

lemma update_le_one:
  "\<forall>n \<in> set (map snd al). n \<le> (1::int) \<Longrightarrow> v \<le> 1
     \<Longrightarrow> \<forall>n \<in> set (map snd (AList.update k v al)). n \<le> 1"
  by (induction al) auto

lemma length_update:
  "length (AList.update k v al) = (if k \<in> fst ` set al then length al else Suc (length al))"
  by (induction al) auto

lemma counter_get_member:
  "distinct (map fst al) \<Longrightarrow> (c, n) \<in> set al \<Longrightarrow> counter_get al c = n"
  by (simp add: counter_get_def)

lemma counter_get_fresh: "c \<notin> fst ` set al \<Longrightarrow> counter_get al c = 0"
proof -
  assume "c \<notin> fst ` set al"
  then have "map_of al c = None" by (simp add: map_of_eq_None_iff)
  then show ?thesis by (simp add: counter_get_def)
qed

lemma counter_get_pos_key: "0 < counter_get al c \<Longrightarrow> c \<in> fst ` set al"
  by (rule ccontr) (simp add: counter_get_fresh)

text \<open>The selection.\<close>

lemma least_used_cases:
  obtains "channels p = []" "least_used p = (None, 1)"
  | c n where "least_used p = (Some c, n)" "(c, n) \<in> set (channels p)"
      "\<forall>(c', n') \<in> set (channels p). n \<le> n'"
proof (cases "nsmallest1 (channels p)")
  case None
  then have "channels p = []" by (simp add: nsmallest1_None)
  then show ?thesis using that(1) by (simp add: least_used_def)
next
  case (Some kv)
  obtain c n where "kv = (c, n)" by (cases kv)
  with Some nsmallest1_least [of "channels p" c n] show ?thesis
    using that(2) [of c n] by (simp add: least_used_def)
qed

text \<open>Taking a known channel.\<close>

lemma take_known:
  assumes "soft_known p" "c \<in> fst ` set (channels p)"
  shows "soft_known (snd (soft_take (Some c) p))"
    and "length (channels (snd (soft_take (Some c) p))) = length (channels p)"
    and "max_channels (snd (soft_take (Some c) p)) = max_channels p"
  using assms
  by (auto simp: soft_known_def soft_take_def counter_add_def dom_update distinct_update
      length_update)

lemma take_counts: "soft_counts p \<Longrightarrow> soft_counts (snd (soft_take lu p))"
proof (cases lu)
  case None
  then show "soft_counts p \<Longrightarrow> ?thesis" by (simp add: soft_take_def)
next
  case (Some c)
  assume a: "soft_counts p"
  then have nn: "\<forall>n \<in> set (map snd (channels p)). 0 \<le> n" by (simp add: soft_counts_def)
  from counter_get_nonneg [OF nn, of c] have "0 \<le> counter_get (channels p) c + 1" by simp
  from counter_add_nonneg [OF nn this] a Some show ?thesis
    by (simp add: soft_counts_def soft_take_def sum_counter_add)
qed

lemma soft_inv_counts: "soft_inv s \<Longrightarrow> soft_counts (spool s)"
  by (simp add: soft_inv_def soft_counts_def)

text \<open>With every count at least 1 the active count is at least the number of
  channels; while the pool is unshared and below its limit it is at most that.\<close>

lemma busy_active_ge:
  assumes "soft_counts p" "\<forall>(c', n') \<in> set (channels p). 1 \<le> n'"
  shows "int (length (channels p)) \<le> active_channels p"
proof -
  from assms(2) have "\<forall>n \<in> set (map snd (channels p)). 1 \<le> n" by auto
  from sum_ge_length [OF this] assms(1) show ?thesis by (simp add: soft_counts_def)
qed

lemma attempts_all_one:
  assumes c: "soft_counts p" and u: "soft_unshared p" and a: "soft_attempts p"
  shows "active_channels p = int (length (channels p))"
    and "\<forall>n \<in> set (map snd (channels p)). n \<le> 1"
proof -
  from a have pos: "0 < snd (least_used p)" and mo: "may_open p"
    by (simp_all add: soft_attempts_def)
  have busy: "\<forall>(c', n') \<in> set (channels p). 1 \<le> n'"
  proof (cases p rule: least_used_cases)
    case 1
    then show ?thesis by simp
  next
    case (2 c n)
    with pos show ?thesis by fastforce
  qed
  from busy_active_ge [OF c busy] have ge: "int (length (channels p)) \<le> active_channels p" .
  with mo have "below_limit p"
    by (auto simp: below_limit_def may_open_def split: option.splits)
  with u show le1: "\<forall>n \<in> set (map snd (channels p)). n \<le> 1" by (simp add: soft_unshared_def)
  from sum_le_length [OF le1] c ge show "active_channels p = int (length (channels p))"
    by (simp add: soft_counts_def)
qed

lemma limit_reached_not_below:
  assumes c: "soft_counts p" and u: "soft_unshared p"
    and busy: "\<forall>(c', n') \<in> set (channels p). 1 \<le> n'" and mo: "\<not> may_open p"
  shows "\<not> below_limit p"
proof
  assume b: "below_limit p"
  with u have "\<forall>n \<in> set (map snd (channels p)). n \<le> 1" by (simp add: soft_unshared_def)
  from sum_le_length [OF this] c have "active_channels p \<le> int (length (channels p))"
    by (simp add: soft_counts_def)
  with b mo show False
    by (auto simp: below_limit_def may_open_def split: option.splits)
qed

lemma acquire_ok:
  assumes ok: "seq_ok p" and fresh: "\<forall>c. res = Opened c \<longrightarrow> c \<notin> set (stack p)"
  shows "seq_ok (snd (soft_get_enter res p))"
proof -
  from ok have c: "soft_counts p" and k: "soft_known p" and u: "soft_unshared p"
    by (simp_all add: seq_ok_def)
  from k have keys: "fst ` set (channels p) \<subseteq> set (stack p)"
    and dist: "distinct (map fst (channels p))"
    by (simp_all add: soft_known_def)
  from c have nn: "\<forall>n \<in> set (map snd (channels p)). 0 \<le> n" by (simp add: soft_counts_def)
  show ?thesis
  proof (cases p rule: least_used_cases)
    case 1
    show ?thesis
    proof (cases "may_open p")
      case False
      with 1 ok show ?thesis
        by (simp add: soft_get_enter_def maybe_new_channel_def soft_resume_def soft_take_def)
    next
      case True
      show ?thesis
      proof (cases res)
        case (Opened d)
        with 1 True c show ?thesis
          by (simp add: soft_get_enter_def maybe_new_channel_def soft_resume_def soft_take_def
              open_reply_def seq_ok_def soft_counts_def soft_known_def soft_unshared_def
              counter_add_def counter_get_def)
      next
        case (Raised e)
        with 1 True c show ?thesis
          by (simp add: soft_get_enter_def maybe_new_channel_def soft_resume_def soft_take_def
              open_reply_def seq_ok_def soft_counts_def soft_known_def soft_unshared_def)
      qed
    qed
  next
    case (2 c0 n)
    from 2(2) have key: "c0 \<in> fst ` set (channels p)" by force
    from counter_get_member [OF dist 2(2)] have g: "counter_get (channels p) c0 = n" .
    from 2(2) nn have n0: "0 \<le> n" by force
    have reuse: "seq_ok (snd (soft_take (Some c0) q))"
      if q: "channels q = channels p" "active_channels q = active_channels p"
        "stack q = stack p"
        and lim: "n = 0 \<and> max_channels q = max_channels p \<or> \<not> below_limit q" for q
    proof -
      from q c have cq: "soft_counts q" by (simp add: soft_counts_def)
      from q k have kq: "soft_known q" by (simp add: soft_known_def)
      from key q have keyq: "c0 \<in> fst ` set (channels q)" by simp
      note t = take_known [OF kq keyq]
      have "soft_unshared (snd (soft_take (Some c0) q))"
      proof (cases "below_limit (snd (soft_take (Some c0) q))")
        case False
        then show ?thesis by (simp add: soft_unshared_def)
      next
        case True
        with t(2,3) have bq: "below_limit q"
          by (auto simp: below_limit_def split: option.splits)
        with lim have z: "n = 0" "max_channels q = max_channels p" by auto
        with bq q have "below_limit p"
          by (auto simp: below_limit_def split: option.splits)
        with u have "\<forall>n \<in> set (map snd (channels p)). n \<le> 1" by (simp add: soft_unshared_def)
        from update_le_one [OF this, of "counter_get (channels p) c0 + 1" c0] g z q
        show ?thesis
          by (simp add: soft_unshared_def soft_take_def counter_add_def)
      qed
      with take_counts [OF cq, of "Some c0"] t(1) show ?thesis by (simp add: seq_ok_def)
    qed
    show ?thesis
    proof (cases "0 < n")
      case False
      with n0 have "n = 0" by simp
      with 2(1) reuse [of p] show ?thesis by (simp add: soft_get_enter_def)
    next
      case pos: True
      with 2(3) have busy: "\<forall>(c', n') \<in> set (channels p). 1 \<le> n'" by fastforce
      show ?thesis
      proof (cases "may_open p")
        case False
        from limit_reached_not_below [OF c u busy False] reuse [of p] 2(1) pos False
        show ?thesis
          by (simp add: soft_get_enter_def maybe_new_channel_def soft_resume_def)
      next
        case True
        with pos 2(1) have att: "soft_attempts p" by (simp add: soft_attempts_def)
        note one = attempts_all_one [OF c u att]
        show ?thesis
        proof (cases res)
          case (Opened d)
          with fresh keys have d: "d \<notin> fst ` set (channels p)" by auto
          let ?q = "p\<lparr>stack := d # stack p\<rparr>"
          have e: "snd (soft_get_enter res p) = snd (soft_take (Some d) ?q)"
            using 2(1) pos True Opened
            by (simp add: soft_get_enter_def maybe_new_channel_def soft_resume_def open_reply_def)
          from c have cq: "soft_counts ?q" by (simp add: soft_counts_def)
          have kn: "soft_known (snd (soft_take (Some d) ?q))"
            using k d by (auto simp: soft_known_def soft_take_def counter_add_def dom_update
                distinct_update)
          have "\<forall>n \<in> set (map snd (channels (snd (soft_take (Some d) ?q)))). n \<le> 1"
            using update_le_one [OF one(2), of "counter_get (channels p) d + 1" d]
              counter_get_fresh [OF d]
            by (simp add: soft_take_def counter_add_def)
          then have "soft_unshared (snd (soft_take (Some d) ?q))"
            by (simp add: soft_unshared_def)
          with take_counts [OF cq, of "Some d"] kn e show ?thesis by (simp add: seq_ok_def)
        next
          case (Raised e)
          show ?thesis
          proof (cases "e = ChannelOpenError")
            case False
            with Raised 2(1) pos True ok show ?thesis
              by (simp add: soft_get_enter_def maybe_new_channel_def soft_resume_def
                  open_reply_def)
          next
            case coe: True
            let ?q = "p\<lparr>max_channels := Some (active_channels p)\<rparr>"
            have e: "snd (soft_get_enter res p) = snd (soft_take (Some c0) ?q)"
              using 2(1) pos True Raised coe
              by (simp add: soft_get_enter_def maybe_new_channel_def soft_resume_def
                  open_reply_def)
            from one(1) have "\<not> below_limit ?q" by (simp add: below_limit_def)
            with reuse [of ?q] e show ?thesis by simp
          qed
        qed
      qed
    qed
  qed
qed

lemma holder_is_key:
  assumes "soft_inv s" "i < length (stasks s)" "stasks s ! i = Holding c"
  shows "c \<in> fst ` set (channels (spool s))"
proof -
  from assms(1) have "int (count_list (stasks s) (Holding c)) \<le> counter_get (channels (spool s)) c"
    by (simp add: soft_inv_def)
  with count_pos_nth [OF assms(2,3)] have "0 < counter_get (channels (spool s)) c" by linarith
  then show ?thesis by (rule counter_get_pos_key)
qed

lemma exit_known:
  assumes "soft_known p" "c \<in> fst ` set (channels p)"
  shows "soft_known (soft_get_exit k c p)"
    and "length (channels (soft_get_exit k c p)) = length (channels p)"
    and "max_channels (soft_get_exit k c p) = max_channels p"
  using assms
  by (cases k; auto simp: soft_known_def soft_get_exit_def counter_add_def dom_update
      distinct_update length_update)+

lemma release_ok:
  assumes inv: "soft_inv s" and ok: "seq_ok (spool s)"
    and step: "soft_step (SExit i k) s = Some s'"
  shows "seq_ok (spool s')"
proof -
  from step have i: "i < length (stasks s)" by (simp split: if_splits)
  with step obtain c where c: "stasks s ! i = Holding c" by (auto split: task.splits)
  with step i have p': "spool s' = soft_get_exit k c (spool s)" by auto
  from soft_step_inv [OF inv step] have cnt: "soft_counts (spool s')" by (rule soft_inv_counts)
  note key = holder_is_key [OF inv i c]
  from ok have kn: "soft_known (spool s)" and u: "soft_unshared (spool s)"
    by (simp_all add: seq_ok_def)
  note x = exit_known [OF kn key, of k]
  have "soft_unshared (soft_get_exit k c (spool s))"
  proof (cases "below_limit (soft_get_exit k c (spool s))")
    case False
    then show ?thesis by (simp add: soft_unshared_def)
  next
    case True
    with x(2,3) have "below_limit (spool s)"
      by (auto simp: below_limit_def split: option.splits)
    with u have le: "\<forall>n \<in> set (map snd (channels (spool s))). n \<le> 1"
      by (simp add: soft_unshared_def)
    from key obtain n where "(c, n) \<in> set (channels (spool s))" by auto
    with kn le have "counter_get (channels (spool s)) c \<le> 1"
      by (auto simp: soft_known_def counter_get_member)
    then have "counter_get (channels (spool s)) c + (- 1) \<le> 1" by simp
    from update_le_one [OF le this, of c] le show ?thesis
      by (cases k) (simp_all add: soft_unshared_def soft_get_exit_def counter_add_def)
  qed
  with cnt x(1) p' show ?thesis by (simp add: seq_ok_def)
qed

lemma acquire_result:
  assumes "soft_seq_step (Acquire res) s = Some s'"
  shows "spool s' = snd (soft_get_enter res (spool s))"
    and "\<forall>c. res = Opened c \<longrightarrow> c \<notin> set (stack (spool s))"
    and "soft_inv s \<Longrightarrow> soft_inv s'"
proof -
  from assms have fr: "\<not> (case res of Opened c \<Rightarrow> c \<in> set (stack (spool s)) | Raised e \<Rightarrow> False)"
    and run: "soft_run (if soft_attempts (spool s)
                     then [SGet, SReply (length (stasks s)) res] else [SGet]) s = Some s'"
    by (simp_all split: if_splits)
  from fr show "\<forall>c. res = Opened c \<longrightarrow> c \<notin> set (stack (spool s))" by auto
  from run soft_get_atomic [of s res]
  show "spool s' = snd (soft_get_enter res (spool s))"
    by (auto simp: soft_attempts_def)
  from run show "soft_inv s \<Longrightarrow> soft_inv s'" by (rule soft_run_inv [rotated])
qed

lemma seq_step_ok:
  assumes "soft_inv s" "seq_ok (spool s)" "soft_seq_step x s = Some s'"
  shows "soft_inv s' \<and> seq_ok (spool s')"
proof (cases x)
  case (Acquire res)
  with assms(3) have a: "soft_seq_step (Acquire res) s = Some s'" by simp
  from acquire_result [OF a] acquire_ok [OF assms(2)] assms(1) show ?thesis by simp
next
  case (Release i k)
  with assms(3) have st: "soft_step (SExit i k) s = Some s'" by simp
  from soft_step_inv [OF assms(1) st] release_ok [OF assms(1,2) st] show ?thesis by simp
qed

lemma seq_run_ok:
  "soft_inv s \<Longrightarrow> seq_ok (spool s) \<Longrightarrow> soft_seq_run xs s = Some s'
     \<Longrightarrow> soft_inv s' \<and> seq_ok (spool s')"
proof (induction xs arbitrary: s)
  case Nil
  then show ?case by simp
next
  case (Cons x xs)
  from Cons.prems(3) obtain s1 where s1: "soft_seq_step x s = Some s1" "soft_seq_run xs s1 = Some s'"
    by (auto split: option.splits)
  from seq_step_ok [OF Cons.prems(1,2) s1(1)] Cons.IH s1(2) show ?case by blast
qed

lemma seq_ok_start: "seq_ok (spool (soft_start (soft_init kwargs ut)))"
  by (simp add: seq_ok_def soft_counts_def soft_known_def soft_unshared_def soft_start_def
      soft_init_def)

lemma frozen_no_attempt:
  assumes "soft_frozen k s"
  shows "\<not> soft_attempts (spool s)"
proof
  assume a: "soft_attempts (spool s)"
  from assms have c: "soft_counts (spool s)" and m: "max_channels (spool s) = Some k"
    and k: "k \<le> int (length (channels (spool s)))"
    by (simp_all add: soft_frozen_def soft_inv_counts)
  from a have pos: "0 < snd (least_used (spool s))" and mo: "may_open (spool s)"
    by (simp_all add: soft_attempts_def)
  have busy: "\<forall>(c', n') \<in> set (channels (spool s)). 1 \<le> n'"
  proof (cases "spool s" rule: least_used_cases)
    case 1
    then show ?thesis by simp
  next
    case (2 c n)
    with pos show ?thesis by fastforce
  qed
  from busy_active_ge [OF c busy] k m mo show False by (simp add: may_open_def)
qed

lemma frozen_step:
  assumes f: "soft_frozen k s" and step: "soft_seq_step x s = Some s'"
  shows "soft_frozen k s'"
proof (cases x)
  case (Acquire res)
  with step have a: "soft_seq_step (Acquire res) s = Some s'" by simp
  from f have inv: "soft_inv s" and kn: "soft_known (spool s)"
    and m: "max_channels (spool s) = Some k" and k: "k \<le> int (length (channels (spool s)))"
    by (simp_all add: soft_frozen_def)
  from frozen_no_attempt [OF f] have na: "\<not> soft_attempts (spool s)" .
  obtain lu n where lu: "least_used (spool s) = (lu, n)" by (cases "least_used (spool s)")
  with na have e: "soft_get_enter res (spool s) = soft_take lu (spool s)"
    by (auto simp: soft_get_enter_def soft_attempts_def maybe_new_channel_def soft_resume_def)
  have "soft_known (snd (soft_take lu (spool s)))
      \<and> length (channels (snd (soft_take lu (spool s)))) = length (channels (spool s))
      \<and> max_channels (snd (soft_take lu (spool s))) = max_channels (spool s)"
  proof (cases "spool s" rule: least_used_cases)
    case 1
    with lu kn show ?thesis by (simp add: soft_take_def)
  next
    case (2 c n')
    from 2(2) have "c \<in> fst ` set (channels (spool s))" by force
    from take_known [OF kn this] 2(1) lu show ?thesis by simp
  qed
  with acquire_result(1,3) [OF a] inv e m k show ?thesis by (simp add: soft_frozen_def)
next
  case (Release i j)
  with step have st: "soft_step (SExit i j) s = Some s'" by simp
  from f have inv: "soft_inv s" and kn: "soft_known (spool s)"
    and m: "max_channels (spool s) = Some k" and k: "k \<le> int (length (channels (spool s)))"
    by (simp_all add: soft_frozen_def)
  from st have i: "i < length (stasks s)" by (simp split: if_splits)
  with st obtain c where c: "stasks s ! i = Holding c" by (auto split: task.splits)
  with st i have p': "spool s' = soft_get_exit j c (spool s)" by auto
  from exit_known [OF kn holder_is_key [OF inv i c], of j] soft_step_inv [OF inv st] p' m k
  show ?thesis by (simp add: soft_frozen_def)
qed

lemma frozen_run: "soft_frozen k s \<Longrightarrow> soft_seq_run xs s = Some s' \<Longrightarrow> soft_frozen k s'"
proof (induction xs arbitrary: s)
  case Nil
  then show ?case by simp
next
  case (Cons x xs)
  from Cons.prems(2) obtain s1 where s1: "soft_seq_step x s = Some s1" "soft_seq_run xs s1 = Some s'"
    by (auto split: option.splits)
  from frozen_step [OF Cons.prems(1) s1(1)] Cons.IH s1(2) show ?case by blast
qed

lemma refusal_freezes:
  assumes inv: "soft_inv s" and ok: "seq_ok (spool s)" and att: "soft_attempts (spool s)"
    and step: "soft_seq_step (Acquire (Raised ChannelOpenError)) s = Some s'"
  shows "soft_frozen (active_channels (spool s)) s'"
proof -
  from ok have c: "soft_counts (spool s)" and kn: "soft_known (spool s)"
    and u: "soft_unshared (spool s)"
    by (simp_all add: seq_ok_def)
  note one = attempts_all_one [OF c u att]
  let ?q = "(spool s)\<lparr>max_channels := Some (active_channels (spool s))\<rparr>"
  obtain lu n where lu: "least_used (spool s) = (lu, n)" by (cases "least_used (spool s)")
  with att have e: "soft_get_enter (Raised ChannelOpenError) (spool s) = soft_take lu ?q"
    by (simp add: soft_get_enter_def soft_attempts_def maybe_new_channel_def soft_resume_def
        open_reply_def)
  from kn have knq: "soft_known ?q" by (simp add: soft_known_def)
  have "soft_known (snd (soft_take lu ?q))
      \<and> length (channels (snd (soft_take lu ?q))) = length (channels (spool s))
      \<and> max_channels (snd (soft_take lu ?q)) = Some (active_channels (spool s))"
  proof (cases "spool s" rule: least_used_cases)
    case 1
    with lu knq show ?thesis by (simp add: soft_take_def)
  next
    case (2 c0 n')
    from 2(2) have "c0 \<in> fst ` set (channels ?q)" by force
    from take_known [OF knq this] 2(1) lu show ?thesis by simp
  qed
  with acquire_result(1,3) [OF step] inv e one(1) show ?thesis by (simp add: soft_frozen_def)
qed

lemma soft_sequential_no_creation_after_refusal:
  assumes "soft_seq_run pre (soft_start (soft_init kwargs ut)) = Some s"
    and "soft_attempts (spool s)"
    and "soft_seq_step (Acquire (Raised ChannelOpenError)) s = Some s1"
    and "soft_seq_run post s1 = Some s2"
  shows "\<not> soft_attempts (spool s2)
    \<and> max_channels (spool s2) = Some (active_channels (spool s))"
proof -
  from seq_run_ok [OF soft_inv_start seq_ok_start assms(1)]
  have "soft_inv s" "seq_ok (spool s)" by simp_all
  from refusal_freezes [OF this assms(2,3)]
  have "soft_frozen (active_channels (spool s)) s1" .
  from frozen_run [OF this assms(4)] have f: "soft_frozen (active_channels (spool s)) s2" .
  from frozen_no_attempt [OF f] f show ?thesis by (simp add: soft_frozen_def)
qed

lemma soft_sequential_example:
  "soft_seq_run [Acquire (Opened 0)] (soft_start (soft_init [] None))
     = Some \<lparr>spool = \<lparr>max_channels = None, active_channels = 1, timeout = Some 10800,
                       unsafe_terminate = True, stack = [0], channels = [(0, 1)]\<rparr>,
             stasks = [Holding 0]\<rparr>
   \<and> soft_seq_run [Acquire (Raised ChannelOpenError), Release 0 Normal, Acquire (Opened 1),
                    Acquire (Opened 2)]
       \<lparr>spool = \<lparr>max_channels = None, active_channels = 1, timeout = Some 10800,
                  unsafe_terminate = True, stack = [0], channels = [(0, 1)]\<rparr>,
        stasks = [Holding 0]\<rparr>
     = Some \<lparr>spool = \<lparr>max_channels = Some 1, active_channels = 3, timeout = Some 10800,
                       unsafe_terminate = True, stack = [0], channels = [(0, 3)]\<rparr>,
             stasks = [Exited, Holding 0, Holding 0, Holding 0]\<rparr>"
  by (simp add: init_simps op_simps soft_attempts_def)

text \<open>
  The hard pool with the timeout None: with a channel in the queue \<^verbatim>\<open>get\<close> takes the
  head of the queue and starts no creation; it starts a creation only on an empty
  queue (whatever the timeout); a normal exit puts the channel at the tail of the
  queue; and successive acquisitions take the queued channels from the head, that
  is, in the order of their release.
\<close>

lemma hard_get_fifo:
  "(queue (hpool s) \<noteq> [] \<and> timeout (hpool s) = None \<longrightarrow>
      hard_step HGet s
        = Some \<lparr>hpool = (hpool s)\<lparr>active_channels := active_channels (hpool s) + 1,
                                queue := tl (queue (hpool s))\<rparr>,
                htasks = htasks s @ [Holding (hd (queue (hpool s)))]\<rparr>)
   \<and> (hard_step HGet s = Some s' \<and> last (htasks s') = Opening None \<longrightarrow> queue (hpool s) = [])
   \<and> (i < length (htasks s) \<and> htasks s ! i = Holding c \<longrightarrow>
      hard_step (HExit i Normal) s
        = Some \<lparr>hpool = (hpool s)\<lparr>active_channels := active_channels (hpool s) - 1,
                                queue := queue (hpool s) @ [c]\<rparr>,
                htasks = (htasks s)[i := Exited]\<rparr>)
   \<and> (n \<le> length (queue (hpool s)) \<and> timeout (hpool s) = None \<longrightarrow>
      hard_run (replicate n HGet) s
        = Some \<lparr>hpool = (hpool s)\<lparr>active_channels := active_channels (hpool s) + int n,
                                queue := drop n (queue (hpool s))\<rparr>,
                htasks = htasks s @ map Holding (take n (queue (hpool s)))\<rparr>)"
proof -
  have one: "hard_step HGet s
        = Some \<lparr>hpool = (hpool s)\<lparr>active_channels := active_channels (hpool s) + 1,
                                queue := tl (queue (hpool s))\<rparr>,
                htasks = htasks s @ [Holding (hd (queue (hpool s)))]\<rparr>"
    if "queue (hpool s) \<noteq> [] \<and> timeout (hpool s) = None"
    using that hard_get_nonempty [of s "hd (queue (hpool s))" "tl (queue (hpool s))"] by simp
  have two: "queue (hpool s) = []"
    if "hard_step HGet s = Some s' \<and> last (htasks s') = Opening None"
    using that
    by (cases "queue (hpool s)")
      (auto simp: hard_wait_def queue_get_def split: if_splits)
  have three: "hard_step (HExit i Normal) s
        = Some \<lparr>hpool = (hpool s)\<lparr>active_channels := active_channels (hpool s) - 1,
                                queue := queue (hpool s) @ [c]\<rparr>,
                htasks = (htasks s)[i := Exited]\<rparr>"
    if "i < length (htasks s) \<and> htasks s ! i = Holding c"
    using that by (simp add: hard_get_exit_def)
  from one two three hard_gets_drain_in_order [of n s] show ?thesis by blast
qed

text \<open>With a positive timeout the same acquisition takes three steps; when nothing
  comes between them it ends with the head of the queue as well.\<close>

lemma hard_get_positive_timeout:
  "queue (hpool s) = c # q \<Longrightarrow> timeout (hpool s) = Some t \<Longrightarrow> 0 < t \<Longrightarrow>
     hard_run [HGet, HWake (length (htasks s)), HResume (length (htasks s))] s
       = Some \<lparr>hpool = (hpool s)\<lparr>active_channels := active_channels (hpool s) + 1,
                               queue := q\<rparr>,
               htasks = htasks s @ [Holding c]\<rparr>"
  by (simp add: hard_wait_def queue_wake_def no_wait_def)

lemma hard_get_fifo_example:
  "hard_run [HExit 1 Normal, HExit 0 Normal, HGet, HGet]
      \<lparr>hpool = \<lparr>max_channels = None, active_channels = 2, timeout = None,
                 unsafe_terminate = True, stack = [2, 1], queue = []\<rparr>,
       htasks = [Holding 1, Holding 2]\<rparr>
     = Some \<lparr>hpool = \<lparr>max_channels = None, active_channels = 2, timeout = None,
                       unsafe_terminate = True, stack = [2, 1], queue = []\<rparr>,
             htasks = [Exited, Exited, Holding 2, Holding 1]\<rparr>"
  by (simp add: op_simps)












text \<open>Closing step by step keeps the invariant of the soft pool when \<^verbatim>\<open>close\<close> is called
  with no active channel or under the strict policy.\<close>

lemma nonneg_sum_zero:
  "\<forall>n \<in> set xs. (0::int) \<le> n \<Longrightarrow> sum_list xs = 0 \<Longrightarrow> \<forall>n \<in> set xs. n = 0"
proof (induction xs)
  case Nil
  show ?case by simp
next
  case (Cons x xs)
  have "0 \<le> sum_list xs" using Cons.prems(1) by (simp add: sum_list_nonneg)
  with Cons.prems have "x = 0" "sum_list xs = 0" by auto
  with Cons show ?case by simp
qed

lemma idle_counts_zero:
  assumes "\<forall>n \<in> set (map snd al). (0::int) \<le> n" "sum_list (map snd al) = 0"
  shows "counter_get al c = 0"
proof (cases "map_of al c")
  case None
  then show ?thesis by (simp add: counter_get_def)
next
  case (Some n)
  then have "(c, n) \<in> set al" by (rule map_of_SomeD)
  then have "n \<in> set (map snd al)" by force
  with nonneg_sum_zero [OF assms] have "n = 0" by blast
  with Some show ?thesis by (simp add: counter_get_def)
qed

lemma soft_close_step_inv:
  assumes "soft_inv (ssys s)" "soft_close_step ev s = Some s'"
    "ev = SClose \<longrightarrow> active_channels (spool (ssys s)) = 0 \<or> \<not> unsafe_terminate (spool (ssys s))"
  shows "soft_inv (ssys s')"
proof (cases ev)
  case (SRun e)
  with assms show ?thesis
    by (auto split: option.splits intro: soft_step_inv)
next
  case (SLeft r)
  with assms show ?thesis
    by (auto simp: soft_inv_def close_next_def split: closer.splits list.splits)
next
  case SClose
  show ?thesis
  proof (cases "active_channels (spool (ssys s)) = 0")
    case False
    with assms SClose show ?thesis
      by (auto simp: close_begin_def split: closer.splits)
  next
    case True
    with assms(1) have z: "\<And>c. counter_get (channels (spool (ssys s))) c = 0"
      by (intro idle_counts_zero) (simp_all add: soft_inv_def)
    with assms(1) have "\<And>c. count_list (stasks (ssys s)) (Holding c) = 0"
      by (simp add: soft_inv_def)
    with assms SClose True show ?thesis
      by (auto simp: soft_inv_def close_begin_def close_next_def soft_cleanup_def
          counter_get_def split: closer.splits list.splits)
  qed
qed

text \<open>Acquisitions of the soft pool: a task that has started a creation keeps the
  channel it selected until the connection answers it, and what \<^verbatim>\<open>get\<close> hands out
  in each case.\<close>

lemma opening_kept_step:
  assumes "i < length (stasks s)" "stasks s ! i = Opening lu" "soft_step ev s = Some s'"
    "\<forall>r. ev \<noteq> SReply i r"
  shows "i < length (stasks s') \<and> stasks s' ! i = Opening lu"
proof (cases ev)
  case SGet
  with assms show ?thesis
    by (auto simp: nth_append split: prod.splits if_splits)
next
  case (SReply j res)
  with assms have "j \<noteq> i" by simp
  with assms SReply show ?thesis
    by (auto split: if_splits task.splits prod.splits)
next
  case (SExit j k)
  with assms have "j \<noteq> i" by (auto split: if_splits)
  with assms SExit show ?thesis
    by (auto split: if_splits task.splits)
qed

lemma opening_kept_run:
  "i < length (stasks s) \<Longrightarrow> stasks s ! i = Opening lu \<Longrightarrow> soft_run evs s = Some s' \<Longrightarrow>
     \<forall>r. SReply i r \<notin> set evs \<Longrightarrow> i < length (stasks s') \<and> stasks s' ! i = Opening lu"
proof (induction evs arbitrary: s)
  case Nil
  then show ?case by simp
next
  case (Cons ev evs)
  from Cons.prems(3) obtain s1 where s1: "soft_step ev s = Some s1" "soft_run evs s1 = Some s'"
    by (auto split: option.splits)
  from Cons.prems(4) have ne: "\<forall>r. ev \<noteq> SReply i r" by auto
  from opening_kept_step [OF Cons.prems(1,2) s1(1) ne]
  have "i < length (stasks s1)" "stasks s1 ! i = Opening lu" by simp_all
  from Cons.IH [OF this s1(2)] Cons.prems(4) show ?case by simp
qed

lemma opening_reply:
  assumes "i < length (stasks s)" "stasks s ! i = Opening lu"
  shows "(\<forall>c. \<exists>s3. soft_step (SReply i (Opened c)) s = Some s3
              \<and> stasks s3 ! i = Holding c
              \<and> channels (spool s3) = counter_add (channels (spool s)) c 1)
       \<and> (\<exists>s3. soft_step (SReply i (Raised ChannelOpenError)) s = Some s3
              \<and> stasks s3 ! i = (case lu of None \<Rightarrow> Failed CantCreateConnections
                                   | Some c0 \<Rightarrow> Holding c0))
       \<and> (\<forall>e. e \<noteq> ChannelOpenError \<longrightarrow>
              (\<exists>s3. soft_step (SReply i (Raised e)) s = Some s3
                 \<and> stasks s3 ! i = Failed e \<and> spool s3 = spool s))"
  using assms
  by (auto simp: open_reply_def soft_resume_def soft_take_def task_of_def split: option.splits)

lemma soft_get_begins:
  "\<exists>s1. soft_step SGet s = Some s1
     \<and> (if 0 < snd (least_used (spool s)) \<and> may_open (spool s)
        then s1 = s\<lparr>stasks := stasks s @ [Opening (fst (least_used (spool s)))]\<rparr>
        else stasks s1 = stasks s @ [case fst (least_used (spool s)) of
                                       None \<Rightarrow> Failed CantCreateConnections
                                     | Some c0 \<Rightarrow> Holding c0])"
  by (cases "least_used (spool s)")
    (auto simp: soft_take_def task_of_def split: option.splits)

lemma least_used_selected:
  assumes "nsmallest1 (channels p) = Some (c0, n0)"
  shows "least_used p = (Some c0, n0) \<and> (c0, n0) \<in> set (channels p)
      \<and> (\<forall>(c', n') \<in> set (channels p). n0 \<le> n')"
  using assms nsmallest1_least [OF assms] by (simp add: least_used_def)

lemma soft_get_reuses:
  assumes "nsmallest1 (channels p) = Some (c0, n0)" "n0 \<le> 0 \<or> \<not> may_open p"
  shows "soft_get_enter res p
     = (Inr c0, p\<lparr>active_channels := active_channels p + 1,
                  channels := counter_add (channels p) c0 1\<rparr>)"
  using assms
  by (auto simp: soft_get_enter_def least_used_def maybe_new_channel_def soft_resume_def
      soft_take_def)

lemma soft_get_refused:
  assumes "nsmallest1 (channels p) = Some (c0, n0)" "0 < n0 \<and> may_open p"
  shows "soft_get_enter (Raised ChannelOpenError) p
     = (Inr c0, p\<lparr>max_channels := Some (active_channels p),
                  active_channels := active_channels p + 1,
                  channels := counter_add (channels p) c0 1\<rparr>)"
  using assms
  by (auto simp: soft_get_enter_def least_used_def maybe_new_channel_def soft_resume_def
      soft_take_def open_reply_def)

lemma soft_get_creates:
  assumes "0 < snd (least_used p) \<and> may_open p"
  shows "soft_get_enter (Opened c) p
     = (Inr c, p\<lparr>stack := c # stack p, active_channels := active_channels p + 1,
                 channels := counter_add (channels p) c 1\<rparr>)"
    and "e \<noteq> ChannelOpenError \<Longrightarrow> soft_get_enter (Raised e) p = (Inl e, p)"
  using assms
  by (cases "least_used p";
      simp add: soft_get_enter_def maybe_new_channel_def soft_resume_def soft_take_def
      open_reply_def)+

lemma fresh_counts_one:
  assumes "c \<notin> fst ` set al"
  shows "counter_get al c = 0 \<and> counter_get (counter_add al c 1) c = 1"
proof -
  from assms have "map_of al c = None" by (simp add: map_of_eq_None_iff)
  then show ?thesis by (simp add: counter_get_def counter_add_def update_conv')
qed

lemma soft_get_empty:
  assumes "channels p = []"
  shows "least_used p = (None, 1)"
    and "soft_get_enter res p = soft_resume None (maybe_new_channel res p)"
    and "may_open p \<Longrightarrow> soft_get_enter (Raised ChannelOpenError) p
           = (Inl CantCreateConnections, p\<lparr>max_channels := Some (active_channels p)\<rparr>)"
    and "\<not> may_open p \<Longrightarrow> soft_get_enter res p = (Inl CantCreateConnections, p)"
  using assms
  by (simp_all add: least_used_def soft_get_enter_def maybe_new_channel_def soft_resume_def
      soft_take_def open_reply_def)

section \<open>Properties\<close>

text \<open>
  C7. \<^verbatim>\<open>_maybe_new_channel\<close>: when the limit is unset or the active count is below it
  and opening the channel fails with ChannelOpenError, the limit becomes the active
  count and the function returns None without raising; any other failure of the open
  propagates; and when the limit is set and the active count has reached it, nothing
  is opened at all: whatever the connection would answer, the result is None and the
  pool is untouched.
\<close>

theorem maybe_new_channel_refusal:
  fixes p :: "'a pool_scheme"
  shows "(max_channels p = None \<or> (\<exists>m. max_channels p = Some m \<and> active_channels p < m) \<longrightarrow>
           maybe_new_channel (Raised ChannelOpenError) p
             = (Inr None, p\<lparr>max_channels := Some (active_channels p)\<rparr>)
         \<and> (\<forall>e. e \<noteq> ChannelOpenError \<longrightarrow> maybe_new_channel (Raised e) p = (Inl e, p)))
       \<and> ((\<exists>m. max_channels p = Some m \<and> m \<le> active_channels p) \<longrightarrow>
           (\<forall>res. maybe_new_channel res p = (Inr None, p)))"
  by (auto simp: maybe_new_channel_def may_open_def open_reply_def split: option.splits)

theorem maybe_new_channel_refusal_witness:
  "maybe_new_channel (Raised ChannelOpenError) (hard_init [] None)
     = (Inr None, (hard_init [] None)\<lparr>max_channels := Some 0\<rparr>)
   \<and> maybe_new_channel (Raised (OtherError ''OSError'')) (hard_init [] None)
     = (Inl (OtherError ''OSError''), hard_init [] None)
   \<and> maybe_new_channel (Opened 5) (hard_init [(''max_channels'', Some 0)] None)
     = (Inr None, hard_init [(''max_channels'', Some 0)] None)"
proof -
  have a: "max_channels (hard_init [] None) = None"
    by (simp add: hard_init_def kw_max_channels_def)
  have b: "active_channels (hard_init [] None) = 0"
    by (simp add: hard_init_def)
  have c: "\<exists>m. max_channels (hard_init [(''max_channels'', Some 0)] None) = Some m
             \<and> m \<le> active_channels (hard_init [(''max_channels'', Some 0)] None)"
    by (simp add: hard_init_def kw_max_channels_def)
  from a b c show ?thesis
    using maybe_new_channel_refusal [of "hard_init [] None"]
      maybe_new_channel_refusal [of "hard_init [(''max_channels'', Some 0)] None"]
    by simp
qed

text \<open>
  C1. The claim: on every exit of a consumer's scope, exceptional or normal, the active
  count is decremented and the channel released, so that the pool is in the same
  state after either exit. The code does this on a normal exit only. With one
  consumer that opened channel 7: after an exit by exception the hard pool still
  counts one active channel and its queue is empty (the channel is lost), and the soft
  pool still counts one active channel and one use of channel 7; after a normal exit
  the counts are 0 and the hard pool's queue holds channel 7.
\<close>

theorem exit_by_exception_releases_nothing:
  "hard_run [HGet, HReply 0 (Opened 7), HExit 0 Raising] (hard_start (hard_init [] None))
     = Some \<lparr>hpool = \<lparr>max_channels = None, active_channels = 1, timeout = Some 10800,
                       unsafe_terminate = True, stack = [7], queue = []\<rparr>,
             htasks = [Exited]\<rparr>
   \<and> hard_run [HGet, HReply 0 (Opened 7), HExit 0 Normal] (hard_start (hard_init [] None))
     = Some \<lparr>hpool = \<lparr>max_channels = None, active_channels = 0, timeout = Some 10800,
                       unsafe_terminate = True, stack = [7], queue = [7]\<rparr>,
             htasks = [Exited]\<rparr>
   \<and> soft_run [SGet, SReply 0 (Opened 7), SExit 0 Raising] (soft_start (soft_init [] None))
     = Some \<lparr>spool = \<lparr>max_channels = None, active_channels = 1, timeout = Some 10800,
                       unsafe_terminate = True, stack = [7], channels = [(7, 1)]\<rparr>,
             stasks = [Exited]\<rparr>
   \<and> soft_run [SGet, SReply 0 (Opened 7), SExit 0 Normal] (soft_start (soft_init [] None))
     = Some \<lparr>spool = \<lparr>max_channels = None, active_channels = 0, timeout = Some 10800,
                       unsafe_terminate = True, stack = [7], channels = [(7, 0)]\<rparr>,
             stasks = [Exited]\<rparr>"
  by (simp add: init_simps op_simps)

text \<open>
  C2. The claim: after one refused creation no later acquisition attempts a creation,
  and the limit stays at the active count seen at the refusal. The soft pool breaks
  this when acquisitions overlap. A soft pool with \<^verbatim>\<open>max_channels=2\<close>: consumer 0 opens
  channel 0; consumers 1 and 2 both start a creation while one channel is active;
  the creation of consumer 1 succeeds (channel 1); consumer 3 finds the limit reached
  and shares channel 0; then the creation of consumer 2 is refused, the only refusal of
  the run, at three active consumers, so the limit rises from 2 to 3. After consumers
  3 and 2 have left, the acquisition of consumer 4 finds every channel in use and two
  active consumers, below the limit of 3: it starts a creation again.
\<close>

theorem creation_attempted_after_refusal:
  "soft_run [SGet, SReply 0 (Opened 0), SGet, SGet, SReply 1 (Opened 1), SGet,
             SReply 2 (Raised ChannelOpenError), SExit 3 Normal, SExit 2 Normal, SGet]
     (soft_start (soft_init [(''max_channels'', Some 2)] None))
   = Some \<lparr>spool = \<lparr>max_channels = Some 3, active_channels = 2, timeout = Some 10800,
                     unsafe_terminate = True, stack = [1, 0], channels = [(0, 1), (1, 1)]\<rparr>,
           stasks = [Holding 0, Holding 1, Exited, Exited, Opening (Some 0)]\<rparr>"
  by (simp add: init_simps op_simps)




text \<open>
  C10. The claim: constructing an SSHFile with any mode other than \<^verbatim>\<open>"rb"\<close> and \<^verbatim>\<open>"wb"\<close>
  raises the ValueError that names the mode. The constructor of the base class runs
  first, before the test of SSHFile: with fsspec's constructor the modes \<^verbatim>\<open>"r"\<close> and
  \<^verbatim>\<open>"rb+"\<close> end in its NotImplementedError, and the ValueError is never raised.
\<close>

theorem base_constructor_decides_first:
  "SSHFile_init (fsspec_init {''ab'', ''rb'', ''wb''} (\<lambda>p. Inr 0)) (\<lambda>p. ''/d'') ''0f'' ''/d/x'' ''r''
     = (Inl NotImplementedError, 0)
   \<and> SSHFile_init (fsspec_init {''ab'', ''rb'', ''wb''} (\<lambda>p. Inr 0)) (\<lambda>p. ''/d'') ''0f'' ''/d/x'' ''rb+''
     = (Inl NotImplementedError, 0)
   \<and> NotImplementedError \<noteq> UnsupportedMode ''r''
   \<and> NotImplementedError \<noteq> UnsupportedMode ''rb+''"
  by (simp add: SSHFile_init_def fsspec_init_def)

text \<open>
  C10, amended. What the constructor of the base class raises, the constructor of
  SSHFile raises. When the base constructor returns and the mode is neither \<^verbatim>\<open>"rb"\<close>
  nor \<^verbatim>\<open>"wb"\<close>, SSHFile raises the ValueError that carries the mode, having taken no
  channel and opened no remote file itself: the channels taken are those of the base
  constructor. When it returns and the mode is \<^verbatim>\<open>"rb"\<close> or \<^verbatim>\<open>"wb"\<close>, the construction
  gives a file that has entered no pool context and opened no remote file yet. With
  fsspec's constructor: a mode it does not support ends in NotImplementedError, a mode
  it supports other than \<^verbatim>\<open>"rb"\<close> and \<^verbatim>\<open>"wb"\<close> in the ValueError, both with no channel
  taken; \<^verbatim>\<open>"wb"\<close> gives a file with no channel taken; \<^verbatim>\<open>"rb"\<close> takes one channel for
  \<^verbatim>\<open>fs.info\<close> and gives a file, or the error of \<^verbatim>\<open>fs.info\<close>.
\<close>

theorem SSHFile_init_mode:
  "(base path mode = (Inl e, k) \<longrightarrow> SSHFile_init base parent tok path mode = (Inl e, k))
   \<and> (base path mode = (Inr b, k) \<and> b_mode b \<noteq> ''rb'' \<and> b_mode b \<noteq> ''wb'' \<longrightarrow>
        SSHFile_init base parent tok path mode = (Inl (UnsupportedMode (b_mode b)), k))
   \<and> (base path mode = (Inr b, k) \<and> (b_mode b = ''rb'' \<or> b_mode b = ''wb'') \<longrightarrow>
        (\<exists>f. SSHFile_init base parent tok path mode = (Inr f, k) \<and> f_mode f = b_mode b
             \<and> f_path f = b_path b \<and> f_file f = None \<and> f_stack f = []))
   \<and> (mode \<notin> modes \<longrightarrow>
        SSHFile_init (fsspec_init modes info) parent tok path mode = (Inl NotImplementedError, 0))
   \<and> (mode \<in> modes \<and> mode \<noteq> ''rb'' \<and> mode \<noteq> ''wb'' \<longrightarrow>
        SSHFile_init (fsspec_init modes info) parent tok path mode
          = (Inl (UnsupportedMode mode), 0))
   \<and> (mode \<in> modes \<and> mode = ''wb'' \<longrightarrow>
        (\<exists>f. SSHFile_init (fsspec_init modes info) parent tok path mode = (Inr f, 0)
             \<and> f_mode f = mode \<and> f_file f = None \<and> f_stack f = []))
   \<and> (mode \<in> modes \<and> mode = ''rb'' \<longrightarrow>
        (case info path of
           Inl e' \<Rightarrow> SSHFile_init (fsspec_init modes info) parent tok path mode = (Inl e', 1)
         | Inr n \<Rightarrow>
             (\<exists>f. SSHFile_init (fsspec_init modes info) parent tok path mode = (Inr f, 1)
                  \<and> f_mode f = mode \<and> f_file f = None \<and> f_stack f = [])))"
  by (auto simp: SSHFile_init_def fsspec_init_def split: sum.splits)

theorem SSHFile_init_mode_witness:
  "SSHFile_init (fsspec_init {''ab'', ''rb'', ''wb''} (\<lambda>p. Inr 0)) (\<lambda>p. ''/d'') ''0f'' ''/d/x'' ''ab''
     = (Inl (UnsupportedMode ''ab''), 0)
   \<and> SSHFile_init (fsspec_init {''ab'', ''rb'', ''wb''} (\<lambda>p. Inr 0)) (\<lambda>p. ''/d'') ''0f'' ''/d/x'' ''a''
     = (Inl NotImplementedError, 0)
   \<and> (\<exists>f. SSHFile_init (fsspec_init {''ab'', ''rb'', ''wb''} (\<lambda>p. Inr 0)) (\<lambda>p. ''/d'') ''0f''
            ''/d/x'' ''wb'' = (Inr f, 0)
         \<and> f_mode f = ''wb'' \<and> f_file f = None \<and> f_stack f = [])
   \<and> (\<exists>f. SSHFile_init (fsspec_init {''ab'', ''rb'', ''wb''} (\<lambda>p. Inr 0)) (\<lambda>p. ''/d'') ''0f''
            ''/d/x'' ''rb'' = (Inr f, 1)
         \<and> f_mode f = ''rb'' \<and> f_file f = None \<and> f_stack f = [])
   \<and> SSHFile_init (fsspec_init {''ab'', ''rb'', ''wb''} (\<lambda>p. Inl (OtherError ''FileNotFoundError'')))
        (\<lambda>p. ''/d'') ''0f'' ''/d/x'' ''rb''
     = (Inl (OtherError ''FileNotFoundError''), 1)
   \<and> SSHFile_init (\<lambda>p m. (Inr \<lparr>b_path = p, b_mode = m\<rparr>, 0)) (\<lambda>p. ''/d'') ''0f'' ''/d/x'' ''r''
     = (Inl (UnsupportedMode ''r''), 0)"
proof -
  let ?m = "{''ab'', ''rb'', ''wb''}"
  let ?i = "\<lambda>p::string. Inr 0 :: error + nat"
  let ?j = "\<lambda>p::string. Inl (OtherError ''FileNotFoundError'') :: error + nat"
  let ?d = "\<lambda>p::string. ''/d''"
  note t = SSHFile_init_mode [where parent = ?d and tok = "''0f''" and path = "''/d/x''"
      and modes = ?m]
  have a: "SSHFile_init (fsspec_init ?m ?i) ?d ''0f'' ''/d/x'' ''ab''
     = (Inl (UnsupportedMode ''ab''), 0)"
    using t [where mode = "''ab''" and info = ?i, THEN conjunct2, THEN conjunct2,
        THEN conjunct2, THEN conjunct2, THEN conjunct1] by simp
  have b: "SSHFile_init (fsspec_init ?m ?i) ?d ''0f'' ''/d/x'' ''a''
     = (Inl NotImplementedError, 0)"
    using t [where mode = "''a''" and info = ?i, THEN conjunct2, THEN conjunct2,
        THEN conjunct2, THEN conjunct1] by simp
  have c: "\<exists>f. SSHFile_init (fsspec_init ?m ?i) ?d ''0f'' ''/d/x'' ''wb'' = (Inr f, 0)
         \<and> f_mode f = ''wb'' \<and> f_file f = None \<and> f_stack f = []"
    using t [where mode = "''wb''" and info = ?i, THEN conjunct2, THEN conjunct2,
        THEN conjunct2, THEN conjunct2, THEN conjunct2, THEN conjunct1] by simp
  have d: "\<exists>f. SSHFile_init (fsspec_init ?m ?i) ?d ''0f'' ''/d/x'' ''rb'' = (Inr f, 1)
         \<and> f_mode f = ''rb'' \<and> f_file f = None \<and> f_stack f = []"
    using t [where mode = "''rb''" and info = ?i, THEN conjunct2, THEN conjunct2,
        THEN conjunct2, THEN conjunct2, THEN conjunct2, THEN conjunct2] by simp
  have e: "SSHFile_init (fsspec_init ?m ?j) ?d ''0f'' ''/d/x'' ''rb''
     = (Inl (OtherError ''FileNotFoundError''), 1)"
    using t [where mode = "''rb''" and info = ?j, THEN conjunct2, THEN conjunct2,
        THEN conjunct2, THEN conjunct2, THEN conjunct2, THEN conjunct2] by simp
  have f: "SSHFile_init (\<lambda>p m. (Inr \<lparr>b_path = p, b_mode = m\<rparr>, 0)) ?d ''0f'' ''/d/x'' ''r''
     = (Inl (UnsupportedMode ''r''), 0)"
    using SSHFile_init_mode [where base = "\<lambda>p m. (Inr \<lparr>b_path = p, b_mode = m\<rparr>, 0)"
        and parent = ?d and tok = "''0f''" and path = "''/d/x''" and mode = "''r''"
        and b = "\<lparr>b_path = ''/d/x'', b_mode = ''r''\<rparr>" and k = 0,
        THEN conjunct2, THEN conjunct1] by simp
  from a b c d e f show ?thesis by blast
qed

text \<open>
  C4. Soft pool. \<^verbatim>\<open>get\<close> selects the first entry of the usage map whose count is at
  most the count of every entry. When that count is 0 or less, or the limit is
  reached, it hands out the selected channel, whatever the connection would answer,
  and counts one more use of it; when every channel is in use and a creation is
  refused it hands out the selected channel as well. When every channel is in use and
  the creation succeeds it hands out the created channel, which, unknown to the map,
  reads as 0 before and counts 1 after; any other error of the creation propagates.
  When the map is empty the placeholder gives the count 1, so \<^verbatim>\<open>get\<close> goes through
  \<^verbatim>\<open>_maybe_new_channel\<close>, and it raises the ValueError when that gives no channel. With
  acquisitions that overlap: a task that has started a creation is handed, whatever
  other consumers do before the connection answers, the created channel, or on a
  refusal the channel it selected when it called \<^verbatim>\<open>get\<close>.
\<close>

theorem soft_get_selects_least_or_fresh:
  "(nsmallest1 (channels p) = Some (c0, n0) \<longrightarrow>
      least_used p = (Some c0, n0) \<and> (c0, n0) \<in> set (channels p)
      \<and> (\<forall>(c', n') \<in> set (channels p). n0 \<le> n')
      \<and> (n0 \<le> 0 \<or> \<not> may_open p \<longrightarrow>
           (\<forall>res. soft_get_enter res p
              = (Inr c0, p\<lparr>active_channels := active_channels p + 1,
                           channels := counter_add (channels p) c0 1\<rparr>)))
      \<and> (0 < n0 \<and> may_open p \<longrightarrow>
           soft_get_enter (Raised ChannelOpenError) p
             = (Inr c0, p\<lparr>max_channels := Some (active_channels p),
                          active_channels := active_channels p + 1,
                          channels := counter_add (channels p) c0 1\<rparr>)))
   \<and> (0 < snd (least_used p) \<and> may_open p \<longrightarrow>
        (\<forall>c. soft_get_enter (Opened c) p
                = (Inr c, p\<lparr>stack := c # stack p, active_channels := active_channels p + 1,
                            channels := counter_add (channels p) c 1\<rparr>)
              \<and> (c \<notin> fst ` set (channels p) \<longrightarrow>
                   counter_get (channels p) c = 0
                   \<and> counter_get (counter_add (channels p) c 1) c = 1))
        \<and> (\<forall>e. e \<noteq> ChannelOpenError \<longrightarrow> soft_get_enter (Raised e) p = (Inl e, p)))
   \<and> (channels p = [] \<longrightarrow>
        least_used p = (None, 1)
        \<and> (\<forall>res. soft_get_enter res p = soft_resume None (maybe_new_channel res p))
        \<and> (may_open p \<longrightarrow>
             soft_get_enter (Raised ChannelOpenError) p
               = (Inl CantCreateConnections, p\<lparr>max_channels := Some (active_channels p)\<rparr>))
        \<and> (\<not> may_open p \<longrightarrow>
             (\<forall>res. soft_get_enter res p = (Inl CantCreateConnections, p))))
   \<and> (\<exists>s1. soft_step SGet s = Some s1
         \<and> (if 0 < snd (least_used (spool s)) \<and> may_open (spool s)
            then s1 = s\<lparr>stasks := stasks s @ [Opening (fst (least_used (spool s)))]\<rparr>
              \<and> (\<forall>evs s2. soft_run evs s1 = Some s2
                      \<and> (\<forall>r. SReply (length (stasks s)) r \<notin> set evs) \<longrightarrow>
                    (\<forall>c. \<exists>s3. soft_step (SReply (length (stasks s)) (Opened c)) s2 = Some s3
                         \<and> stasks s3 ! length (stasks s) = Holding c
                         \<and> channels (spool s3) = counter_add (channels (spool s2)) c 1)
                    \<and> (\<exists>s3. soft_step (SReply (length (stasks s)) (Raised ChannelOpenError)) s2
                              = Some s3
                         \<and> stasks s3 ! length (stasks s)
                             = (case fst (least_used (spool s)) of
                                  None \<Rightarrow> Failed CantCreateConnections
                                | Some c0 \<Rightarrow> Holding c0))
                    \<and> (\<forall>e. e \<noteq> ChannelOpenError \<longrightarrow>
                         (\<exists>s3. soft_step (SReply (length (stasks s)) (Raised e)) s2 = Some s3
                            \<and> stasks s3 ! length (stasks s) = Failed e
                            \<and> spool s3 = spool s2)))
            else stasks s1 = stasks s @ [case fst (least_used (spool s)) of
                                           None \<Rightarrow> Failed CantCreateConnections
                                         | Some c0 \<Rightarrow> Holding c0]))"
proof -
  have sel: "nsmallest1 (channels p) = Some (c0, n0) \<longrightarrow>
      least_used p = (Some c0, n0) \<and> (c0, n0) \<in> set (channels p)
      \<and> (\<forall>(c', n') \<in> set (channels p). n0 \<le> n')
      \<and> (n0 \<le> 0 \<or> \<not> may_open p \<longrightarrow>
           (\<forall>res. soft_get_enter res p
              = (Inr c0, p\<lparr>active_channels := active_channels p + 1,
                           channels := counter_add (channels p) c0 1\<rparr>)))
      \<and> (0 < n0 \<and> may_open p \<longrightarrow>
           soft_get_enter (Raised ChannelOpenError) p
             = (Inr c0, p\<lparr>max_channels := Some (active_channels p),
                          active_channels := active_channels p + 1,
                          channels := counter_add (channels p) c0 1\<rparr>))"
  proof
    assume a: "nsmallest1 (channels p) = Some (c0, n0)"
    note least_used_selected [OF a]
    moreover have "\<forall>res. soft_get_enter res p
              = (Inr c0, p\<lparr>active_channels := active_channels p + 1,
                           channels := counter_add (channels p) c0 1\<rparr>)"
      if "n0 \<le> 0 \<or> \<not> may_open p"
      using soft_get_reuses [OF a that] by blast
    moreover have "soft_get_enter (Raised ChannelOpenError) p
             = (Inr c0, p\<lparr>max_channels := Some (active_channels p),
                          active_channels := active_channels p + 1,
                          channels := counter_add (channels p) c0 1\<rparr>)"
      if "0 < n0 \<and> may_open p"
      using soft_get_refused [OF a that] .
    ultimately show "least_used p = (Some c0, n0) \<and> (c0, n0) \<in> set (channels p)
      \<and> (\<forall>(c', n') \<in> set (channels p). n0 \<le> n')
      \<and> (n0 \<le> 0 \<or> \<not> may_open p \<longrightarrow>
           (\<forall>res. soft_get_enter res p
              = (Inr c0, p\<lparr>active_channels := active_channels p + 1,
                           channels := counter_add (channels p) c0 1\<rparr>)))
      \<and> (0 < n0 \<and> may_open p \<longrightarrow>
           soft_get_enter (Raised ChannelOpenError) p
             = (Inr c0, p\<lparr>max_channels := Some (active_channels p),
                          active_channels := active_channels p + 1,
                          channels := counter_add (channels p) c0 1\<rparr>))"
      by blast
  qed
  have new: "0 < snd (least_used p) \<and> may_open p \<longrightarrow>
        (\<forall>c. soft_get_enter (Opened c) p
                = (Inr c, p\<lparr>stack := c # stack p, active_channels := active_channels p + 1,
                            channels := counter_add (channels p) c 1\<rparr>)
              \<and> (c \<notin> fst ` set (channels p) \<longrightarrow>
                   counter_get (channels p) c = 0
                   \<and> counter_get (counter_add (channels p) c 1) c = 1))
        \<and> (\<forall>e. e \<noteq> ChannelOpenError \<longrightarrow> soft_get_enter (Raised e) p = (Inl e, p))"
    using soft_get_creates [of p] fresh_counts_one [of _ "channels p"] by blast
  have empty: "channels p = [] \<longrightarrow>
        least_used p = (None, 1)
        \<and> (\<forall>res. soft_get_enter res p = soft_resume None (maybe_new_channel res p))
        \<and> (may_open p \<longrightarrow>
             soft_get_enter (Raised ChannelOpenError) p
               = (Inl CantCreateConnections, p\<lparr>max_channels := Some (active_channels p)\<rparr>))
        \<and> (\<not> may_open p \<longrightarrow>
             (\<forall>res. soft_get_enter res p = (Inl CantCreateConnections, p)))"
    using soft_get_empty [of p] by blast
  have over: "\<exists>s1. soft_step SGet s = Some s1
         \<and> (if 0 < snd (least_used (spool s)) \<and> may_open (spool s)
            then s1 = s\<lparr>stasks := stasks s @ [Opening (fst (least_used (spool s)))]\<rparr>
              \<and> (\<forall>evs s2. soft_run evs s1 = Some s2
                      \<and> (\<forall>r. SReply (length (stasks s)) r \<notin> set evs) \<longrightarrow>
                    (\<forall>c. \<exists>s3. soft_step (SReply (length (stasks s)) (Opened c)) s2 = Some s3
                         \<and> stasks s3 ! length (stasks s) = Holding c
                         \<and> channels (spool s3) = counter_add (channels (spool s2)) c 1)
                    \<and> (\<exists>s3. soft_step (SReply (length (stasks s)) (Raised ChannelOpenError)) s2
                              = Some s3
                         \<and> stasks s3 ! length (stasks s)
                             = (case fst (least_used (spool s)) of
                                  None \<Rightarrow> Failed CantCreateConnections
                                | Some c0 \<Rightarrow> Holding c0))
                    \<and> (\<forall>e. e \<noteq> ChannelOpenError \<longrightarrow>
                         (\<exists>s3. soft_step (SReply (length (stasks s)) (Raised e)) s2 = Some s3
                            \<and> stasks s3 ! length (stasks s) = Failed e
                            \<and> spool s3 = spool s2)))
            else stasks s1 = stasks s @ [case fst (least_used (spool s)) of
                                           None \<Rightarrow> Failed CantCreateConnections
                                         | Some c0 \<Rightarrow> Holding c0])"
  proof (cases "0 < snd (least_used (spool s)) \<and> may_open (spool s)")
    case False
    with soft_get_begins [of s] show ?thesis by auto
  next
    case True
    let ?i = "length (stasks s)"
    let ?lu = "fst (least_used (spool s))"
    let ?s1 = "s\<lparr>stasks := stasks s @ [Opening ?lu]\<rparr>"
    from True soft_get_begins [of s] have st: "soft_step SGet s = Some ?s1" by auto
    have o1: "?i < length (stasks ?s1)" "stasks ?s1 ! ?i = Opening ?lu" by simp_all
    have "(\<forall>c. \<exists>s3. soft_step (SReply ?i (Opened c)) s2 = Some s3
                         \<and> stasks s3 ! ?i = Holding c
                         \<and> channels (spool s3) = counter_add (channels (spool s2)) c 1)
                    \<and> (\<exists>s3. soft_step (SReply ?i (Raised ChannelOpenError)) s2 = Some s3
                         \<and> stasks s3 ! ?i
                             = (case ?lu of None \<Rightarrow> Failed CantCreateConnections
                                | Some c0 \<Rightarrow> Holding c0))
                    \<and> (\<forall>e. e \<noteq> ChannelOpenError \<longrightarrow>
                         (\<exists>s3. soft_step (SReply ?i (Raised e)) s2 = Some s3
                            \<and> stasks s3 ! ?i = Failed e \<and> spool s3 = spool s2))"
      if r: "soft_run evs ?s1 = Some s2 \<and> (\<forall>r. SReply ?i r \<notin> set evs)" for evs s2
    proof -
      from r have a: "soft_run evs ?s1 = Some s2" and b: "\<forall>r. SReply ?i r \<notin> set evs"
        by simp_all
      from opening_kept_run [OF o1 a b]
      have "?i < length (stasks s2)" "stasks s2 ! ?i = Opening ?lu" by simp_all
      from opening_reply [OF this] show ?thesis .
    qed
    with st True show ?thesis by simp
  qed
  show ?thesis
    apply (intro conjI)
    subgoal by (rule sel)
    subgoal by (rule new)
    subgoal by (rule empty)
    subgoal by (rule over)
    done
qed

theorem soft_get_selects_least_or_fresh_witness:
  "soft_get_enter (Opened 9)
      \<lparr>max_channels = None, active_channels = 1, timeout = None, unsafe_terminate = True,
       stack = [2, 1, 0], channels = [(0, 1), (1, 0), (2, 0)]\<rparr>
     = (Inr 1, \<lparr>max_channels = None, active_channels = 2, timeout = None,
                unsafe_terminate = True, stack = [2, 1, 0],
                channels = [(0, 1), (1, 1), (2, 0)]\<rparr>)
   \<and> soft_get_enter (Raised ChannelOpenError)
      \<lparr>max_channels = None, active_channels = 4, timeout = None, unsafe_terminate = True,
       stack = [2, 1, 0], channels = [(0, 2), (1, 1), (2, 1)]\<rparr>
     = (Inr 1, \<lparr>max_channels = Some 4, active_channels = 5, timeout = None,
                unsafe_terminate = True, stack = [2, 1, 0],
                channels = [(0, 2), (1, 2), (2, 1)]\<rparr>)
   \<and> soft_get_enter (Opened 3)
      \<lparr>max_channels = None, active_channels = 4, timeout = None, unsafe_terminate = True,
       stack = [2, 1, 0], channels = [(0, 2), (1, 1), (2, 1)]\<rparr>
     = (Inr 3, \<lparr>max_channels = None, active_channels = 5, timeout = None,
                unsafe_terminate = True, stack = [3, 2, 1, 0],
                channels = [(0, 2), (1, 1), (2, 1), (3, 1)]\<rparr>)
   \<and> soft_get_enter (Opened 3)
      \<lparr>max_channels = Some 4, active_channels = 4, timeout = None, unsafe_terminate = True,
       stack = [2, 1, 0], channels = [(0, 2), (1, 1), (2, 1)]\<rparr>
     = (Inr 1, \<lparr>max_channels = Some 4, active_channels = 5, timeout = None,
                unsafe_terminate = True, stack = [2, 1, 0],
                channels = [(0, 2), (1, 2), (2, 1)]\<rparr>)
   \<and> least_used (soft_init [] None) = (None, 1)
   \<and> soft_get_enter (Raised ChannelOpenError) (soft_init [] None)
     = (Inl CantCreateConnections, (soft_init [] None)\<lparr>max_channels := Some 0\<rparr>)
   \<and> (\<exists>s3. soft_step (SReply 1 (Raised ChannelOpenError))
              \<lparr>spool = \<lparr>max_channels = None, active_channels = 1, timeout = None,
                         unsafe_terminate = True, stack = [5, 0], channels = [(0, 1), (5, 0)]\<rparr>,
               stasks = [Holding 0, Opening (Some 0), Exited]\<rparr> = Some s3
           \<and> stasks s3 ! 1 = Holding 0)"
proof -
  let ?idle = "\<lparr>max_channels = None, active_channels = 1, timeout = None,
       unsafe_terminate = True, stack = [2, 1, 0], channels = [(0, 1), (1, 0), (2, 0)]\<rparr>"
  let ?busy = "\<lparr>max_channels = None, active_channels = 4, timeout = None,
       unsafe_terminate = True, stack = [2, 1, 0], channels = [(0, 2), (1, 1), (2, 1)]\<rparr>"
  let ?full = "\<lparr>max_channels = Some 4, active_channels = 4, timeout = None,
       unsafe_terminate = True, stack = [2, 1, 0], channels = [(0, 2), (1, 1), (2, 1)]\<rparr>"
  let ?s = "\<lparr>spool = \<lparr>max_channels = None, active_channels = 1, timeout = None,
                       unsafe_terminate = True, stack = [0], channels = [(0, 1)]\<rparr>,
             stasks = [Holding 0]\<rparr>"
  let ?s2 = "\<lparr>spool = \<lparr>max_channels = None, active_channels = 1, timeout = None,
                         unsafe_terminate = True, stack = [5, 0], channels = [(0, 1), (5, 0)]\<rparr>,
               stasks = [Holding 0, Opening (Some 0), Exited]\<rparr>"
  let ?evs = "[SGet, SReply 2 (Opened 5), SExit 2 Normal]"
  have a: "soft_get_enter (Opened 9) ?idle
     = (Inr 1, \<lparr>max_channels = None, active_channels = 2, timeout = None,
                unsafe_terminate = True, stack = [2, 1, 0],
                channels = [(0, 1), (1, 1), (2, 0)]\<rparr>)"
  proof -
    have "nsmallest1 (channels ?idle) = Some (1, 0)" by simp
    from soft_get_selects_least_or_fresh [where p = ?idle and ?c0.0 = 1 and ?n0.0 = 0,
        THEN conjunct1, rule_format, OF this]
    have "\<forall>res. soft_get_enter res ?idle
              = (Inr 1, ?idle\<lparr>active_channels := active_channels ?idle + 1,
                           channels := counter_add (channels ?idle) 1 1\<rparr>)"
      by simp
    then show ?thesis by (simp add: counter_add_def counter_get_def)
  qed
  have b: "soft_get_enter (Raised ChannelOpenError) ?busy
     = (Inr 1, \<lparr>max_channels = Some 4, active_channels = 5, timeout = None,
                unsafe_terminate = True, stack = [2, 1, 0],
                channels = [(0, 2), (1, 2), (2, 1)]\<rparr>)"
  proof -
    have "nsmallest1 (channels ?busy) = Some (1, 1)" by simp
    from soft_get_selects_least_or_fresh [where p = ?busy and ?c0.0 = 1 and ?n0.0 = 1,
        THEN conjunct1, rule_format, OF this]
    have "0 < (1::int) \<and> may_open ?busy \<longrightarrow> soft_get_enter (Raised ChannelOpenError) ?busy
             = (Inr 1, ?busy\<lparr>max_channels := Some (active_channels ?busy),
                          active_channels := active_channels ?busy + 1,
                          channels := counter_add (channels ?busy) 1 1\<rparr>)"
      by blast
    then show ?thesis by (simp add: may_open_def counter_add_def counter_get_def)
  qed
  have c: "soft_get_enter (Opened 3) ?busy
     = (Inr 3, \<lparr>max_channels = None, active_channels = 5, timeout = None,
                unsafe_terminate = True, stack = [3, 2, 1, 0],
                channels = [(0, 2), (1, 1), (2, 1), (3, 1)]\<rparr>)"
  proof -
    have "0 < snd (least_used ?busy) \<and> may_open ?busy"
      by (simp add: least_used_def may_open_def)
    from soft_get_selects_least_or_fresh [where p = ?busy, THEN conjunct2, THEN conjunct1,
        rule_format, OF this]
    have "soft_get_enter (Opened 3) ?busy
                = (Inr 3, ?busy\<lparr>stack := 3 # stack ?busy,
                            active_channels := active_channels ?busy + 1,
                            channels := counter_add (channels ?busy) 3 1\<rparr>)"
      by blast
    then show ?thesis by (simp add: counter_add_def counter_get_def)
  qed
  have d: "soft_get_enter (Opened 3) ?full
     = (Inr 1, \<lparr>max_channels = Some 4, active_channels = 5, timeout = None,
                unsafe_terminate = True, stack = [2, 1, 0],
                channels = [(0, 2), (1, 2), (2, 1)]\<rparr>)"
  proof -
    have "nsmallest1 (channels ?full) = Some (1, 1)" by simp
    from soft_get_selects_least_or_fresh [where p = ?full and ?c0.0 = 1 and ?n0.0 = 1,
        THEN conjunct1, rule_format, OF this]
    have "(1::int) \<le> 0 \<or> \<not> may_open ?full \<longrightarrow> (\<forall>res. soft_get_enter res ?full
              = (Inr 1, ?full\<lparr>active_channels := active_channels ?full + 1,
                           channels := counter_add (channels ?full) 1 1\<rparr>))"
      by blast
    then show ?thesis by (simp add: may_open_def counter_add_def counter_get_def)
  qed
  have e: "least_used (soft_init [] None) = (None, 1)
     \<and> soft_get_enter (Raised ChannelOpenError) (soft_init [] None)
     = (Inl CantCreateConnections, (soft_init [] None)\<lparr>max_channels := Some 0\<rparr>)"
  proof -
    have "channels (soft_init [] None) = []" by (simp add: soft_init_def)
    from soft_get_selects_least_or_fresh [where p = "soft_init [] None", THEN conjunct2,
        THEN conjunct2, THEN conjunct1, rule_format, OF this]
    have "least_used (soft_init [] None) = (None, 1)"
      and "may_open (soft_init [] None) \<longrightarrow>
             soft_get_enter (Raised ChannelOpenError) (soft_init [] None)
               = (Inl CantCreateConnections,
                  (soft_init [] None)\<lparr>max_channels := Some (active_channels (soft_init [] None))\<rparr>)"
      by blast+
    then show ?thesis by (simp add: may_open_def init_simps)
  qed
  have f: "\<exists>s3. soft_step (SReply 1 (Raised ChannelOpenError)) ?s2 = Some s3
           \<and> stasks s3 ! 1 = Holding 0"
  proof -
    have cond: "0 < snd (least_used (spool ?s)) \<and> may_open (spool ?s)"
      by (simp add: least_used_def may_open_def)
    have lu: "fst (least_used (spool ?s)) = Some 0"
      by (simp add: least_used_def)
    have run: "soft_run ?evs (?s\<lparr>stasks := stasks ?s @ [Opening (Some 0)]\<rparr>) = Some ?s2"
      by (simp add: op_simps)
    have no: "\<forall>r. SReply (length (stasks ?s)) r \<notin> set ?evs" by simp
    from soft_get_selects_least_or_fresh [where s = ?s, THEN conjunct2, THEN conjunct2,
        THEN conjunct2] cond lu
    have "\<forall>evs s2. soft_run evs (?s\<lparr>stasks := stasks ?s @ [Opening (Some 0)]\<rparr>) = Some s2
                      \<and> (\<forall>r. SReply (length (stasks ?s)) r \<notin> set evs) \<longrightarrow>
                    (\<exists>s3. soft_step (SReply (length (stasks ?s)) (Raised ChannelOpenError)) s2
                              = Some s3
                         \<and> stasks s3 ! length (stasks ?s) = Holding 0)"
      by (simp del: soft_step.simps soft_run.simps)
    from this [rule_format, of ?evs ?s2] run no show ?thesis by simp
  qed
  from a b c d e f show ?thesis by blast
qed

text \<open>
  C5. The claim: the sum of the usage counts equals the active count and no count is
  negative, an invariant of every pool operation. \<^verbatim>\<open>close()\<close> is a pool operation and
  does not keep it: under the forceful policy it empties the usage map of a pool that
  has an active consumer and leaves the active count at 1, and when that consumer
  then leaves its scope the count of its channel becomes -1.
\<close>

theorem close_breaks_usage_invariant:
  "soft_run [SGet, SReply 0 (Opened 0)] (soft_start (soft_init [] None))
     = Some \<lparr>spool = \<lparr>max_channels = None, active_channels = 1, timeout = Some 10800,
                       unsafe_terminate = True, stack = [0], channels = [(0, 1)]\<rparr>,
             stasks = [Holding 0]\<rparr>
   \<and> soft_close (\<lambda>c pend. Returned False)
       \<lparr>max_channels = None, active_channels = 1, timeout = Some 10800,
                   unsafe_terminate = True, stack = [0], channels = [(0, 1)]\<rparr>
     = (Inr (), \<lparr>max_channels = None, active_channels = 1, timeout = Some 10800,
                   unsafe_terminate = True, stack = [], channels = []\<rparr>)
   \<and> sum_list (map snd (channels \<lparr>max_channels = None, active_channels = 1, timeout = Some 10800,
                   unsafe_terminate = True, stack = [], channels = []\<rparr>))
       \<noteq> active_channels \<lparr>max_channels = None, active_channels = 1, timeout = Some 10800,
                   unsafe_terminate = True, stack = [], channels = []\<rparr>
   \<and> soft_get_exit Normal 0 \<lparr>max_channels = None, active_channels = 1, timeout = Some 10800,
                   unsafe_terminate = True, stack = [], channels = []\<rparr>
     = \<lparr>max_channels = None, active_channels = 0, timeout = Some 10800,
                   unsafe_terminate = True, stack = [], channels = [(0, - 1)]\<rparr>"
  by (simp add: init_simps op_simps soft_close_def close_def aclose_def soft_cleanup_def
      exit_reply_def raise_pending_def)

text \<open>
  C5, amended. After any sequence of acquisitions and releases on a newly constructed
  soft pool (a release by exception included, acquisitions overlapping or not) the sum
  of the usage counts equals the active count and no count is negative; \<^verbatim>\<open>close()\<close>
  keeps this when the active count is 0 or the policy is strict.
\<close>

theorem soft_usage_invariant:
  "(soft_run evs (soft_start (soft_init kwargs ut)) = Some s \<longrightarrow>
      sum_list (map snd (channels (spool s))) = active_channels (spool s)
      \<and> (\<forall>n \<in> set (map snd (channels (spool s))). 0 \<le> n))
   \<and> (sum_list (map snd (channels p)) = active_channels p
      \<and> (\<forall>n \<in> set (map snd (channels p)). 0 \<le> n)
      \<and> (active_channels p = 0 \<or> \<not> unsafe_terminate p) \<longrightarrow>
      sum_list (map snd (channels (snd (soft_close td p)))) = active_channels (snd (soft_close td p))
      \<and> (\<forall>n \<in> set (map snd (channels (snd (soft_close td p)))). 0 \<le> n))"
proof -
  have "soft_inv s" if "soft_run evs (soft_start (soft_init kwargs ut)) = Some s"
    using soft_run_inv [OF soft_inv_start that] .
  then have one: "soft_run evs (soft_start (soft_init kwargs ut)) = Some s \<longrightarrow>
      sum_list (map snd (channels (spool s))) = active_channels (spool s)
      \<and> (\<forall>n \<in> set (map snd (channels (spool s))). 0 \<le> n)"
    by (simp add: soft_inv_def)
  have two: "sum_list (map snd (channels p)) = active_channels p
      \<and> (\<forall>n \<in> set (map snd (channels p)). 0 \<le> n)
      \<and> (active_channels p = 0 \<or> \<not> unsafe_terminate p) \<longrightarrow>
      sum_list (map snd (channels (snd (soft_close td p)))) = active_channels (snd (soft_close td p))
      \<and> (\<forall>n \<in> set (map snd (channels (snd (soft_close td p)))). 0 \<le> n)"
    by (auto simp: soft_close_def close_def aclose_def soft_cleanup_def)
  from one two show ?thesis by blast
qed

theorem soft_usage_invariant_witness:
  "soft_run [SGet, SReply 0 (Opened 0), SGet, SReply 1 (Raised ChannelOpenError),
             SExit 0 Normal, SExit 1 Raising]
      (soft_start (soft_init [] None))
     = Some \<lparr>spool = \<lparr>max_channels = Some 1, active_channels = 1, timeout = Some 10800,
                       unsafe_terminate = True, stack = [0], channels = [(0, 1)]\<rparr>,
             stasks = [Exited, Exited]\<rparr>
   \<and> sum_list (map snd (channels \<lparr>max_channels = Some 1, active_channels = 1,
         timeout = Some 10800, unsafe_terminate = True, stack = [0], channels = [(0, 1)]\<rparr>)) = 1
   \<and> sum_list (map snd (channels (snd (soft_close (\<lambda>c pend. Returned False)
         \<lparr>max_channels = None, active_channels = 1, timeout = None,
          unsafe_terminate = False, stack = [0], channels = [(0, 1)]\<rparr>)))) = 1"
proof -
  have run: "soft_run [SGet, SReply 0 (Opened 0), SGet, SReply 1 (Raised ChannelOpenError),
             SExit 0 Normal, SExit 1 Raising]
      (soft_start (soft_init [] None))
     = Some \<lparr>spool = \<lparr>max_channels = Some 1, active_channels = 1, timeout = Some 10800,
                       unsafe_terminate = True, stack = [0], channels = [(0, 1)]\<rparr>,
             stasks = [Exited, Exited]\<rparr>"
    by (simp add: init_simps op_simps)
  note inv = soft_usage_invariant [of "[SGet, SReply 0 (Opened 0), SGet,
        SReply 1 (Raised ChannelOpenError), SExit 0 Normal, SExit 1 Raising]" "[]" None
        "\<lparr>spool = \<lparr>max_channels = Some 1, active_channels = 1, timeout = Some 10800,
                       unsafe_terminate = True, stack = [0], channels = [(0, 1)]\<rparr>,
             stasks = [Exited, Exited]\<rparr>"
        "\<lparr>max_channels = None, active_channels = 1, timeout = None,
          unsafe_terminate = False, stack = [0], channels = [(0, 1)]\<rparr>"
        "\<lambda>c pend. Returned False"]
  from inv run have a: "sum_list (map snd (channels \<lparr>max_channels = Some 1,
         active_channels = 1, timeout = Some 10800, unsafe_terminate = True, stack = [0],
         channels = [(0, 1)]\<rparr>)) = 1"
    by simp
  from inv have c: "sum_list (map snd (channels (snd (soft_close (\<lambda>c pend. Returned False)
         \<lparr>max_channels = None, active_channels = 1, timeout = None,
          unsafe_terminate = False, stack = [0], channels = [(0, 1)]\<rparr>))))
       = active_channels (snd (soft_close (\<lambda>c pend. Returned False)
         \<lparr>max_channels = None, active_channels = 1, timeout = None,
          unsafe_terminate = False, stack = [0], channels = [(0, 1)]\<rparr>))"
    by simp
  have "active_channels (snd (soft_close (\<lambda>c pend. Returned False)
         \<lparr>max_channels = None, active_channels = 1, timeout = None,
          unsafe_terminate = False, stack = [0], channels = [(0, 1)]\<rparr>)) = 1"
    by (simp add: soft_close_def close_def)
  with c have c': "sum_list (map snd (channels (snd (soft_close (\<lambda>c pend. Returned False)
         \<lparr>max_channels = None, active_channels = 1, timeout = None,
          unsafe_terminate = False, stack = [0], channels = [(0, 1)]\<rparr>)))) = 1"
    by simp
  from run a c' show ?thesis by blast
qed

text \<open>
  C6. Hard pool: an acquisition on an empty queue that creates no channel (the limit
  is reached, or the creation is refused) and gets no channel while the timeout runs
  out ends in TimeoutError, an error of its own kind, and the active count and the
  queue are then what they were when the acquisition began; the task has failed and
  no longer waits. With a positive timeout the error comes when the time is up, with
  a timeout of 0 or less at once. The step that raises the TimeoutError of a waiting
  task changes nothing of the pool.
\<close>

theorem hard_get_times_out:
  "(timeout (hpool s) = Some t \<and> queue (hpool s) = [] \<and> t \<le> int n \<longrightarrow>
     (\<exists>s'. hard_run ((if may_open (hpool s)
                       then [HGet, HReply (length (htasks s)) (Raised ChannelOpenError)]
                       else [HGet])
                      @ (if 0 < t then replicate n HTick @ [HExpire (length (htasks s))]
                         else [])) s = Some s'
          \<and> htasks s' ! length (htasks s) = Failed TimeoutError
          \<and> active_channels (hpool s') = active_channels (hpool s)
          \<and> queue (hpool s') = queue (hpool s)))
   \<and> (hard_step (HExpire i) s = Some s' \<longrightarrow>
        hpool s' = hpool s \<and> htasks s' = (htasks s)[i := Failed TimeoutError])"
proof -
  let ?get = "if may_open (hpool s)
              then [HGet, HReply (length (htasks s)) (Raised ChannelOpenError)] else [HGet]"
  have one: "\<exists>s'. hard_run (?get @ (if 0 < t then replicate n HTick @ [HExpire (length (htasks s))]
                         else [])) s = Some s'
          \<and> htasks s' ! length (htasks s) = Failed TimeoutError
          \<and> active_channels (hpool s') = active_channels (hpool s)
          \<and> queue (hpool s') = queue (hpool s)"
    if a: "timeout (hpool s) = Some t" "queue (hpool s) = []" "t \<le> int n"
  proof (cases "0 < t")
    case True
    with a(1) have "\<not> no_wait (hpool s)" by (simp add: no_wait_def)
    from hard_get_to_waiting [OF a(2) this] obtain s1 where
      s1: "hard_run ?get s = Some s1"
      and t1: "htasks s1 = htasks s @ [Waiting 0]"
      and p1: "active_channels (hpool s1) = active_channels (hpool s)" "queue (hpool s1) = []"
        "timeout (hpool s1) = timeout (hpool s)"
      by blast
    let ?s2 = "s1\<lparr>htasks := map (tick ^^ n) (htasks s1)\<rparr>"
    have t2: "htasks ?s2 ! length (htasks s) = Waiting n"
      by (simp add: t1 nth_append ticks_Waiting)
    have "hard_step (HExpire (length (htasks s))) ?s2
            = Some (?s2\<lparr>htasks := (htasks ?s2)[length (htasks s) := Failed TimeoutError]\<rparr>)"
      using t2 a p1 by (simp add: t1)
    then have "hard_run (replicate n HTick @ [HExpire (length (htasks s))]) s1
            = Some (?s2\<lparr>htasks := (htasks ?s2)[length (htasks s) := Failed TimeoutError]\<rparr>)"
      by (simp add: hard_run_append hard_run_ticks)
    with s1 p1 a True show ?thesis
      by (simp add: hard_run_append t1)
  next
    case False
    with a(1) have "no_wait (hpool s)" by (simp add: no_wait_def)
    from hard_get_no_wait [OF a(2) this] obtain s1 where
      "hard_run ?get s = Some s1" "htasks s1 = htasks s @ [Failed TimeoutError]"
      "active_channels (hpool s1) = active_channels (hpool s)" "queue (hpool s1) = []"
      by blast
    with False a(2) show ?thesis by simp
  qed
  have two: "hpool s' = hpool s \<and> htasks s' = (htasks s)[i := Failed TimeoutError]"
    if "hard_step (HExpire i) s = Some s'"
    using that by (auto split: if_splits task.splits option.splits)
  from one two show ?thesis by blast
qed

theorem hard_get_times_out_witness:
  "(\<exists>s'. hard_run ((if may_open (hpool (hard_start (hard_init [(''max_channels'', Some 0),
                                                            (''timeout'', Some 2)] None)))
                    then [HGet, HReply (length (htasks (hard_start
                            (hard_init [(''max_channels'', Some 0), (''timeout'', Some 2)] None))))
                            (Raised ChannelOpenError)]
                    else [HGet])
                   @ (if (0::int) < 2
                      then replicate 2 HTick
                        @ [HExpire (length (htasks (hard_start
                         (hard_init [(''max_channels'', Some 0), (''timeout'', Some 2)] None))))]
                      else []))
            (hard_start (hard_init [(''max_channels'', Some 0), (''timeout'', Some 2)] None))
          = Some s'
      \<and> htasks s' ! 0 = Failed TimeoutError
      \<and> active_channels (hpool s') = 0 \<and> queue (hpool s') = [])
   \<and> hard_step (HExpire 0)
        \<lparr>hpool = hard_init [(''max_channels'', Some 0), (''timeout'', Some 2)] None,
         htasks = [Waiting 2]\<rparr>
      = Some \<lparr>hpool = hard_init [(''max_channels'', Some 0), (''timeout'', Some 2)] None,
              htasks = [Failed TimeoutError]\<rparr>"
proof -
  let ?s = "hard_start (hard_init [(''max_channels'', Some 0), (''timeout'', Some 2)] None)"
  let ?w = "\<lparr>hpool = hard_init [(''max_channels'', Some 0), (''timeout'', Some 2)] None,
         htasks = [Waiting 2]\<rparr>"
  let ?f = "\<lparr>hpool = hard_init [(''max_channels'', Some 0), (''timeout'', Some 2)] None,
         htasks = [Failed TimeoutError]\<rparr>"
  have h: "timeout (hpool ?s) = Some 2 \<and> queue (hpool ?s) = [] \<and> (2::int) \<le> int 2"
    by (simp add: init_simps)
  have v: "length (htasks ?s) = 0" "active_channels (hpool ?s) = 0" "queue (hpool ?s) = []"
    by (simp_all add: init_simps)
  have e: "hard_step (HExpire 0) ?w = Some ?f"
    by (simp add: init_simps)
  from h have "\<exists>s'. hard_run ((if may_open (hpool ?s)
                    then [HGet, HReply (length (htasks ?s)) (Raised ChannelOpenError)]
                    else [HGet])
                   @ (if (0::int) < 2
                      then replicate 2 HTick @ [HExpire (length (htasks ?s))] else [])) ?s
          = Some s'
      \<and> htasks s' ! 0 = Failed TimeoutError
      \<and> active_channels (hpool s') = 0 \<and> queue (hpool s') = []"
    using hard_get_times_out [of ?s 2 2, THEN conjunct1] unfolding v by blast
  moreover from e have "hard_step (HExpire 0) ?w = Some ?f"
    using hard_get_times_out [of ?w _ _ 0 ?f, THEN conjunct2] by blast
  ultimately show ?thesis by blast
qed

text \<open>
  C8. The claim: the hard pool creates only on an empty free-set, takes an existing
  channel when the free-set is not empty, and hands channels out in the order of
  their release. With the timeout None this holds, and with a positive timeout an
  acquisition that nothing interrupts takes the head of the queue too. With a timeout
  of 0 the second part fails: a consumer opens channel 7 and releases it, so the queue
  holds channel 7; the next acquisition starts no creation and does not take the free
  channel either: it fails with TimeoutError, and channel 7 stays in the queue.
\<close>

theorem zero_timeout_ignores_free_channel:
  "hard_run [HGet, HReply 0 (Opened 7), HExit 0 Normal, HGet]
      (hard_start (hard_init [(''timeout'', Some 0)] None))
     = Some \<lparr>hpool = \<lparr>max_channels = None, active_channels = 0, timeout = Some 0,
                       unsafe_terminate = True, stack = [7], queue = [7]\<rparr>,
             htasks = [Exited, Failed TimeoutError]\<rparr>"
  by (simp add: init_simps op_simps)

text \<open>
  C9. The claim: a pool constructed without a timeout value waits without bound. A pool
  constructed without a timeout has the default \<^verbatim>\<open>_MAX_TIMEOUT\<close>, 10800 seconds, also
  when it is constructed by \<^verbatim>\<open>SSHFileSystem\<close> with nothing set. On such a hard pool an
  acquisition whose creation is refused waits on the empty queue, and after 10800
  units of time \<^verbatim>\<open>wait_for\<close> gives up: the acquisition fails with TimeoutError.
\<close>

theorem default_timeout_expires:
  "timeout (hard_init (pool_args UNSET UNSET) None) = Some 10800
   \<and> hard_run ([HGet, HReply 0 (Raised ChannelOpenError)] @ replicate 10800 HTick @ [HExpire 0])
       (hard_start (hard_init (pool_args UNSET UNSET) None))
     = Some \<lparr>hpool = \<lparr>max_channels = Some 0, active_channels = 0, timeout = Some 10800,
                       unsafe_terminate = True, stack = [], queue = []\<rparr>,
             htasks = [Failed TimeoutError]\<rparr>"
  by (simp add: init_simps op_simps hard_run_append hard_run_ticks ticks_Waiting)

text \<open>
  C9, amended. When the hard pool is constructed with \<^verbatim>\<open>timeout=None\<close>, an acquisition
  that waits for a free channel never fails: in no run does \<^verbatim>\<open>wait_for\<close> give up on any
  task, the waiting task never becomes a failed one, and after any stretch of time in
  which nothing else happens it still waits.
\<close>

theorem unset_timeout_waits_unboundedly:
  "timeout (hard_init (pool_args mc (Given None)) ut) = None
   \<and> (timeout (hpool s) = None \<and> i < length (htasks s) \<and> htasks s ! i = Waiting m \<longrightarrow>
        (hard_run evs s = Some s' \<longrightarrow>
           (\<forall>j. HExpire j \<notin> set evs) \<and> (\<forall>e. htasks s' ! i \<noteq> Failed e))
        \<and> (\<exists>s''. hard_run (replicate n HTick) s = Some s'' \<and> htasks s'' ! i = Waiting (m + n)))"
proof -
  have one: "timeout (hard_init (pool_args mc (Given None)) ut) = None"
    by (cases mc) (simp_all add: init_simps)
  have two: "(\<forall>j. HExpire j \<notin> set evs) \<and> (\<forall>e. htasks s' ! i \<noteq> Failed e)"
    if a: "timeout (hpool s) = None \<and> i < length (htasks s) \<and> htasks s ! i = Waiting m"
      and r: "hard_run evs s = Some s'"
  proof -
    from a have "(\<exists>m. htasks s ! i = Waiting m) \<or> (\<exists>c. htasks s ! i = Holding c) \<or> htasks s ! i = Exited"
      by simp
    from hard_run_unexpired [OF _ _ this r] a show ?thesis by auto
  qed
  have three: "\<exists>s''. hard_run (replicate n HTick) s = Some s'' \<and> htasks s'' ! i = Waiting (m + n)"
    if "timeout (hpool s) = None \<and> i < length (htasks s) \<and> htasks s ! i = Waiting m"
    using that by (simp add: hard_run_ticks ticks_Waiting)
  from one two three show ?thesis by blast
qed

theorem unset_timeout_waits_unboundedly_witness:
  "hard_run [HTick, HExit 1 Normal, HWake 0]
      \<lparr>hpool = hard_init (pool_args (Given (Some 1)) (Given None)) None,
       htasks = [Waiting 0, Holding 5]\<rparr>
     = Some \<lparr>hpool = (hard_init (pool_args (Given (Some 1)) (Given None)) None)
                      \<lparr>active_channels := 0, queue := []\<rparr>,
             htasks = [Holding 5, Exited]\<rparr>
   \<and> (\<exists>s''. hard_run (replicate 3 HTick)
              \<lparr>hpool = hard_init (pool_args (Given (Some 1)) (Given None)) None,
               htasks = [Waiting 0, Holding 5]\<rparr> = Some s''
           \<and> htasks s'' ! 0 = Waiting (0 + 3))"
proof -
  let ?s = "\<lparr>hpool = hard_init (pool_args (Given (Some 1)) (Given None)) None,
       htasks = [Waiting 0, Holding 5]\<rparr>"
  let ?s' = "\<lparr>hpool = (hard_init (pool_args (Given (Some 1)) (Given None)) None)
                      \<lparr>active_channels := 0, queue := []\<rparr>,
             htasks = [Holding 5, Exited]\<rparr>"
  have h: "timeout (hpool ?s) = None \<and> 0 < length (htasks ?s) \<and> htasks ?s ! 0 = Waiting 0"
    by (simp add: init_simps)
  have run: "hard_run [HTick, HExit 1 Normal, HWake 0] ?s = Some ?s'"
    by (simp add: init_simps op_simps)
  from h run show ?thesis
    using unset_timeout_waits_unboundedly
      [of "Given (Some 1)" None ?s 0 0 "[HTick, HExit 1 Normal, HWake 0]" ?s' 3]
    by simp
qed

end
